theory Spec2Isabelle
  imports Complex_Main "HOL-Library.Code_Target_Numeral"
begin

section \<open>JavaScript numbers\<close>

text \<open>
  The dashboard computes with JavaScript numbers, that is IEEE 754 binary64 values. A
  value is a finite number (\<open>Fin v\<close>, with \<open>Fin 0\<close> the positive zero), the negative
  zero, an infinity or \<open>NaN\<close>. Every arithmetic operation computes the exact result and
  rounds it to the nearest double, ties to the even significand; no operation throws.
\<close>

datatype jsnum = Fin real | NegZero | PosInf | NegInf | NaN

text \<open>
  The binary exponent of a positive real: the \<open>e\<close> with \<open>2^e \<le> x < 2^(e+1)\<close>, kept
  within the exponents of the format (from \<open>-1022\<close>, where the subnormal numbers
  begin, up to \<open>1024\<close>, where the overflow begins).
\<close>

fun expo_up :: "nat \<Rightarrow> real \<Rightarrow> int \<Rightarrow> int" where
  "expo_up 0 x e = e"
| "expo_up (Suc n) x e = (if 2 \<le> x then expo_up n (x / 2) (e + 1) else e)"

fun expo_down :: "nat \<Rightarrow> real \<Rightarrow> int \<Rightarrow> int" where
  "expo_down 0 x e = e"
| "expo_down (Suc n) x e = (if x < 1 then expo_down n (x * 2) (e - 1) else e)"

definition expo :: "real \<Rightarrow> int" where
  "expo x = (if 1 \<le> x then expo_up 1024 x 0 else expo_down 1022 x 0)"

definition round_even :: "real \<Rightarrow> int" where
  "round_even y =
     (let f = \<lfloor>y\<rfloor>; d = y - of_int f
      in if d < 1 / 2 then f
         else if 1 / 2 < d then f + 1
         else if even f then f else f + 1)"

text \<open>
  \<open>fl x\<close> is the double nearest to the real \<open>x\<close>: \<open>x\<close> is rounded to a multiple of the
  spacing \<open>2^(e-52)\<close> of the doubles of its exponent; a magnitude that reaches \<open>2^1024\<close>
  becomes an infinity, and one that rounds to nothing becomes a zero of the sign of \<open>x\<close>.
\<close>

definition overflow_threshold :: real where
  "overflow_threshold = 2 ^ 1024"

definition fl :: "real \<Rightarrow> jsnum" where
  "fl x =
     (if x = 0 then Fin 0
      else
        let q = 2 powi (expo \<bar>x\<bar> - 52);
            m = of_int (round_even (\<bar>x\<bar> / q)) * q
        in if overflow_threshold \<le> m then (if 0 < x then PosInf else NegInf)
           else if m = 0 then (if 0 < x then Fin 0 else NegZero)
           else Fin (if 0 < x then m else - m))"

fun is_finite :: "jsnum \<Rightarrow> bool" where
  "is_finite (Fin v) = True"
| "is_finite NegZero = True"
| "is_finite x = False"

fun mag :: "jsnum \<Rightarrow> real" where
  "mag (Fin v) = v"
| "mag x = 0"

fun sign_bit :: "jsnum \<Rightarrow> bool" where
  "sign_bit (Fin v) = (v < 0)"
| "sign_bit NegZero = True"
| "sign_bit NegInf = True"
| "sign_bit x = False"

definition is_zero :: "jsnum \<Rightarrow> bool" where
  "is_zero x = (is_finite x \<and> mag x = 0)"

definition inf_of :: "bool \<Rightarrow> jsnum" where
  "inf_of negative = (if negative then NegInf else PosInf)"

definition zero_of :: "bool \<Rightarrow> jsnum" where
  "zero_of negative = (if negative then NegZero else Fin 0)"

definition jadd :: "jsnum \<Rightarrow> jsnum \<Rightarrow> jsnum" where
  "jadd x y =
     (if x = NaN \<or> y = NaN then NaN
      else if \<not> is_finite x then (if \<not> is_finite y \<and> y \<noteq> x then NaN else x)
      else if \<not> is_finite y then y
      else if x = NegZero \<and> y = NegZero then NegZero
      else fl (mag x + mag y))"

fun jneg :: "jsnum \<Rightarrow> jsnum" where
  "jneg (Fin v) = (if v = 0 then NegZero else Fin (- v))"
| "jneg NegZero = Fin 0"
| "jneg PosInf = NegInf"
| "jneg NegInf = PosInf"
| "jneg NaN = NaN"

definition jsub :: "jsnum \<Rightarrow> jsnum \<Rightarrow> jsnum" where
  "jsub x y = jadd x (jneg y)"

definition jmul :: "jsnum \<Rightarrow> jsnum \<Rightarrow> jsnum" where
  "jmul x y =
     (if x = NaN \<or> y = NaN then NaN
      else if \<not> is_finite x \<or> \<not> is_finite y
        then (if is_zero x \<or> is_zero y then NaN else inf_of (sign_bit x \<noteq> sign_bit y))
      else if mag x * mag y = 0 then zero_of (sign_bit x \<noteq> sign_bit y)
      else fl (mag x * mag y))"

definition jdiv :: "jsnum \<Rightarrow> jsnum \<Rightarrow> jsnum" where
  "jdiv x y =
     (if x = NaN \<or> y = NaN then NaN
      else if \<not> is_finite x
        then (if \<not> is_finite y then NaN else inf_of (sign_bit x \<noteq> sign_bit y))
      else if \<not> is_finite y then zero_of (sign_bit x \<noteq> sign_bit y)
      else if mag y = 0
        then (if mag x = 0 then NaN else inf_of (sign_bit x \<noteq> sign_bit y))
      else if mag x = 0 then zero_of (sign_bit x \<noteq> sign_bit y)
      else fl (mag x / mag y))"

text \<open>
  \<open>jlt x y\<close> is the comparison \<open>x < y\<close> and \<open>jgt x y\<close> is \<open>x > y\<close>: false when either
  side is \<open>NaN\<close>, and the two zeros are equal.
\<close>

definition jlt :: "jsnum \<Rightarrow> jsnum \<Rightarrow> bool" where
  "jlt x y =
     (x \<noteq> NaN \<and> y \<noteq> NaN \<and>
      (if x = NegInf then y \<noteq> NegInf
       else if y = PosInf then x \<noteq> PosInf
       else is_finite x \<and> is_finite y \<and> mag x < mag y))"

definition jgt :: "jsnum \<Rightarrow> jsnum \<Rightarrow> bool" where
  "jgt x y = jlt y x"

text \<open>
  The numeric fields of a record are finite numbers: \<open>F v\<close> for the value \<open>v\<close> and
  \<open>NZ\<close> for the negative zero. A value is a double when rounding leaves it as it is.
  What is proved below for every value of a field holds for the doubles in particular,
  and the concrete inputs carry doubles only.
\<close>

datatype fnum = F real | NZ

fun num :: "fnum \<Rightarrow> jsnum" where
  "num (F v) = Fin v"
| "num NZ = NegZero"

fun fval :: "fnum \<Rightarrow> real" where
  "fval (F v) = v"
| "fval NZ = 0"

text \<open>\<open>Math.abs\<close> on a finite number.\<close>

fun fabs :: "fnum \<Rightarrow> fnum" where
  "fabs (F v) = F \<bar>v\<bar>"
| "fabs NZ = F 0"

definition is_double :: "fnum \<Rightarrow> bool" where
  "is_double x = (case x of F v \<Rightarrow> fl v = Fin v | NZ \<Rightarrow> True)"

section \<open>Rendering numbers\<close>

text \<open>
  \<open>Number.prototype.toFixed\<close> returns a string: the exact value of the double rounded
  to the requested number of decimals, a tie going to the larger magnitude. For a
  magnitude of at least \<open>10^21\<close> it returns what \<open>Number::toString\<close> gives, the shortest
  digits that read back as the same double; that string is kept unrendered, as
  \<open>ToStr v\<close>.
\<close>

datatype numstr = Str string | ToStr real

definition digit_char :: "nat \<Rightarrow> char" where
  "digit_char n = ''0123456789'' ! (n mod 10)"

fun nat_digits :: "nat \<Rightarrow> string" where
  "nat_digits n =
     (if n < 10 then [digit_char n] else nat_digits (n div 10) @ [digit_char n])"

declare nat_digits.simps [simp del]

definition toFixed :: "nat \<Rightarrow> jsnum \<Rightarrow> numstr" where
  "toFixed f x =
     (case x of
        NaN \<Rightarrow> Str ''NaN''
      | PosInf \<Rightarrow> Str ''Infinity''
      | NegInf \<Rightarrow> Str ''-Infinity''
      | _ \<Rightarrow>
          let v = mag x in
          if 10 ^ 21 \<le> \<bar>v\<bar> then ToStr v
          else
            let s = (if v < 0 then ''-'' else []);
                n = nat \<lfloor>\<bar>v\<bar> * 10 ^ f + 1 / 2\<rfloor>;
                m = nat_digits n;
                m = (if f = 0 then m
                     else let z = replicate (f + 1 - length m) (CHR ''0'');
                              m = z @ m;
                              k = length m
                          in take (k - f) m @ ''.'' @ drop (k - f) m)
            in Str (s @ m))"

section \<open>Records of the pipeline\<close>

text \<open>
  A transaction as the record source supplies it. The quantity is a whole number, the
  other numeric fields are finite numbers, and the date is a calendar date, written
  \<open>YYYY-MM-DD\<close> in the source and held here by its three components.
\<close>

datatype isodate = IsoDate (d_year: nat) (d_month: nat) (d_day: nat)

record transaction =
  transaction_id :: int
  date :: isodate
  category :: string
  region :: string
  channel :: string
  customer_segment :: string
  quantity :: int
  unit_price :: fnum
  revenue :: fnum
  cost :: fnum
  profit :: fnum
  issue_flag :: string

record cleaned = transaction +
  profit_margin :: numstr
  month :: string
  quarter :: string

record etl_log =
  totalRecords :: nat
  duplicatesRemoved :: nat
  missingValuesHandled :: nat
  negativeValuesFixed :: nat
  outliersRemoved :: nat
  recordsAfterCleaning :: nat

record etl_result =
  cleanedData :: "cleaned list"
  etlLog :: etl_log

text \<open>
  What the run time contributes to the enrichment: the offset of local time from UTC in
  minutes (positive east of Greenwich, strictly between minus and plus one day), and the
  short month names of the default locale, indexed from 0 as \<open>getMonth\<close> counts.
\<close>

record env =
  tz_offset :: int
  month_short :: "nat \<Rightarrow> string"

definition english_short :: "nat \<Rightarrow> string" where
  "english_short m =
     [''Jan'', ''Feb'', ''Mar'', ''Apr'', ''May'', ''Jun'',
      ''Jul'', ''Aug'', ''Sep'', ''Oct'', ''Nov'', ''Dec''] ! m"

section \<open>The cleaning pipeline\<close>

text \<open>
  \<open>Array.prototype.filter\<close> and \<open>map\<close> with a callback that updates variables of the
  enclosing function: the callback takes the state and returns it updated.
\<close>

fun filter_st :: "('a \<Rightarrow> 's \<Rightarrow> bool \<times> 's) \<Rightarrow> 'a list \<Rightarrow> 's \<Rightarrow> 'a list \<times> 's" where
  "filter_st f [] s = ([], s)"
| "filter_st f (x # xs) s =
     (case f x s of (keep, s') \<Rightarrow>
        (case filter_st f xs s' of (ys, s'') \<Rightarrow>
           (if keep then x # ys else ys, s'')))"

fun map_st :: "('a \<Rightarrow> 's \<Rightarrow> 'b \<times> 's) \<Rightarrow> 'a list \<Rightarrow> 's \<Rightarrow> 'b list \<times> 's" where
  "map_st f [] s = ([], s)"
| "map_st f (x # xs) s =
     (case f x s of (y, s') \<Rightarrow>
        (case map_st f xs s' of (ys, s'') \<Rightarrow> (y # ys, s'')))"

definition duplicate_cb ::
  "transaction \<Rightarrow> int set \<times> etl_log \<Rightarrow> bool \<times> (int set \<times> etl_log)" where
  "duplicate_cb row st =
     (case st of (uniqueIds, lg) \<Rightarrow>
        if transaction_id row \<in> uniqueIds
        then (False, (uniqueIds, lg\<lparr>duplicatesRemoved := duplicatesRemoved lg + 1\<rparr>))
        else (True, (insert (transaction_id row) uniqueIds, lg)))"

definition missing_cb :: "transaction \<Rightarrow> etl_log \<Rightarrow> bool \<times> etl_log" where
  "missing_cb row lg =
     (if category row = [] \<or> customer_segment row = []
      then (False, lg\<lparr>missingValuesHandled := missingValuesHandled lg + 1\<rparr>)
      else (True, lg))"

definition negative_cb :: "transaction \<Rightarrow> etl_log \<Rightarrow> transaction \<times> etl_log" where
  "negative_cb row lg =
     (if quantity row < 0 \<or> jlt (num (revenue row)) (Fin 0)
      then (row\<lparr>quantity := \<bar>quantity row\<bar>, revenue := fabs (revenue row)\<rparr>,
            lg\<lparr>negativeValuesFixed := negativeValuesFixed lg + 1\<rparr>)
      else (row, lg))"

definition outlier_cb :: "jsnum \<Rightarrow> transaction \<Rightarrow> etl_log \<Rightarrow> bool \<times> etl_log" where
  "outlier_cb avgRevenue row lg =
     (if jgt (num (revenue row)) (jmul avgRevenue (Fin 5))
      then (False, lg\<lparr>outliersRemoved := outliersRemoved lg + 1\<rparr>)
      else (True, lg))"

text \<open>
  \<open>new Date(row.date)\<close> reads a date-only string as midnight UTC, and \<open>getMonth\<close> and
  \<open>toLocaleString\<close> read that instant in local time: west of Greenwich it is still the
  evening before.
\<close>

definition getMonth :: "env \<Rightarrow> isodate \<Rightarrow> nat" where
  "getMonth e d =
     (if tz_offset e < 0 \<and> d_day d = 1
      then (if d_month d = 1 then 11 else d_month d - 2)
      else d_month d - 1)"

definition enrich :: "env \<Rightarrow> transaction \<Rightarrow> cleaned" where
  "enrich e row =
     transaction.extend row
       (cleaned.fields
          (toFixed 2 (jmul (jdiv (num (profit row)) (num (revenue row))) (Fin 100)))
          (month_short e (getMonth e (date row)))
          (''Q'' @ nat_digits (nat \<lceil>real (getMonth e (date row) + 1) / 3\<rceil>)))"

definition dedup_stage :: "transaction list \<Rightarrow> etl_log \<Rightarrow> transaction list \<times> etl_log" where
  "dedup_stage rows lg =
     (case filter_st duplicate_cb rows ({}, lg) of (out, st) \<Rightarrow> (out, snd st))"

definition missing_stage :: "transaction list \<Rightarrow> etl_log \<Rightarrow> transaction list \<times> etl_log" where
  "missing_stage rows lg = filter_st missing_cb rows lg"

definition negative_stage :: "transaction list \<Rightarrow> etl_log \<Rightarrow> transaction list \<times> etl_log" where
  "negative_stage rows lg = map_st negative_cb rows lg"

text \<open>The mean the outlier stage computes: \<open>reduce\<close> from 0, divided by the length.\<close>

definition avgRevenue :: "transaction list \<Rightarrow> jsnum" where
  "avgRevenue rows =
     jdiv (foldl (\<lambda>sum row. jadd sum (num (revenue row))) (Fin 0) rows)
          (Fin (real (length rows)))"

definition outlier_stage :: "transaction list \<Rightarrow> etl_log \<Rightarrow> transaction list \<times> etl_log" where
  "outlier_stage rows lg = filter_st (outlier_cb (avgRevenue rows)) rows lg"

definition performETL :: "env \<Rightarrow> transaction list \<Rightarrow> etl_result" where
  "performETL e rawData =
     (let lg0 = \<lparr>totalRecords = length rawData, duplicatesRemoved = 0,
                  missingValuesHandled = 0, negativeValuesFixed = 0,
                  outliersRemoved = 0, recordsAfterCleaning = 0\<rparr>;
          (rows1, lg1) = dedup_stage rawData lg0;
          (rows2, lg2) = missing_stage rows1 lg1;
          (rows3, lg3) = negative_stage rows2 lg2;
          (rows4, lg4) = outlier_stage rows3 lg3;
          rows5 = map (enrich e) rows4
      in \<lparr>cleanedData = rows5,
          etlLog = lg4\<lparr>recordsAfterCleaning := length rows5\<rparr>\<rparr>)"

section \<open>Filter layer and KPI calculator\<close>

definition filteredData :: "cleaned list \<Rightarrow> string \<Rightarrow> string \<Rightarrow> cleaned list" where
  "filteredData rows selectedRegion selectedCategory =
     filter (\<lambda>row. (selectedRegion = ''All'' \<or> region row = selectedRegion) \<and>
                    (selectedCategory = ''All'' \<or> category row = selectedCategory)) rows"

record kpi_set =
  totalRevenue :: numstr
  totalProfit :: numstr
  totalTransactions :: nat
  avgOrderValue :: numstr
  profitMargin :: numstr

text \<open>The sums of \<open>kpis\<close> before they are rendered: \<open>reduce\<close> from the initial value 0.\<close>

definition revenue_total :: "cleaned list \<Rightarrow> jsnum" where
  "revenue_total rows = foldl (\<lambda>sum row. jadd sum (num (revenue row))) (Fin 0) rows"

definition profit_total :: "cleaned list \<Rightarrow> jsnum" where
  "profit_total rows = foldl (\<lambda>sum row. jadd sum (num (profit row))) (Fin 0) rows"

definition kpis :: "cleaned list \<Rightarrow> kpi_set" where
  "kpis rows =
     (let tr = revenue_total rows;
          tp = profit_total rows;
          tt = length rows;
          aov = jdiv tr (Fin (real tt));
          pm = jmul (jdiv tp tr) (Fin 100)
      in \<lparr>totalRevenue = toFixed 0 tr,
          totalProfit = toFixed 0 tp,
          totalTransactions = tt,
          avgOrderValue = toFixed 2 aov,
          profitMargin = toFixed 2 pm\<rparr>)"

section \<open>Aggregation\<close>

text \<open>
  The accumulator \<open>grouped\<close> is an object created by \<open>{}\<close>: its own properties in the
  order of their creation, over the properties every object inherits from
  \<open>Object.prototype\<close>. Reading an inherited name gives the inherited value, which is
  truthy, so no own property is created for it and the update lands outside \<open>grouped\<close>.
\<close>

type_synonym 'v obj = "(string \<times> 'v) list"

definition object_prototype_keys :: "string list" where
  "object_prototype_keys =
     [''constructor'', ''__defineGetter__'', ''__defineSetter__'', ''hasOwnProperty'',
      ''__lookupGetter__'', ''__lookupSetter__'', ''isPrototypeOf'',
      ''propertyIsEnumerable'', ''toString'', ''valueOf'', ''__proto__'',
      ''toLocaleString'']"

definition obj_modify :: "string \<Rightarrow> ('v \<Rightarrow> 'v) \<Rightarrow> 'v obj \<Rightarrow> 'v obj" where
  "obj_modify k upd g = map (\<lambda>(k', v). if k' = k then (k', upd v) else (k', v)) g"

definition obj_accumulate :: "string \<Rightarrow> 'v \<Rightarrow> ('v \<Rightarrow> 'v) \<Rightarrow> 'v obj \<Rightarrow> 'v obj" where
  "obj_accumulate k init upd g =
     (case map_of g k of
        Some v \<Rightarrow> obj_modify k upd g
      | None \<Rightarrow> if k \<in> set object_prototype_keys then g else g @ [(k, upd init)])"

text \<open>
  \<open>Object.values\<close> lists the own properties whose name is an array index first, by
  ascending index, and the others after them in the order of their creation.
\<close>

definition digit_of :: "char \<Rightarrow> nat option" where
  "digit_of = map_of (zip ''0123456789'' [0, 1, 2, 3, 4, 5, 6, 7, 8, 9])"

definition digits_val :: "string \<Rightarrow> nat" where
  "digits_val s = foldl (\<lambda>n c. 10 * n + (case digit_of c of Some d \<Rightarrow> d | None \<Rightarrow> 0)) 0 s"

definition array_index :: "string \<Rightarrow> nat option" where
  "array_index s =
     (case s of
        [] \<Rightarrow> None
      | c # cs \<Rightarrow>
          if list_all (\<lambda>c. digit_of c \<noteq> None) s \<and> (c \<noteq> CHR ''0'' \<or> cs = [])
             \<and> digits_val s < 2 ^ 32 - 1
          then Some (digits_val s) else None)"

definition object_values :: "'v obj \<Rightarrow> 'v list" where
  "object_values g =
     map snd (sort_key (\<lambda>(k, v). digits_val k) (filter (\<lambda>(k, v). array_index k \<noteq> None) g))
     @ map snd (filter (\<lambda>(k, v). array_index k = None) g)"

record category_row =
  cr_category :: string
  cr_revenue :: jsnum
  cr_profit :: jsnum
  cr_transactions :: nat

definition category_step :: "category_row obj \<Rightarrow> cleaned \<Rightarrow> category_row obj" where
  "category_step grouped row =
     obj_accumulate (category row)
       \<lparr>cr_category = category row, cr_revenue = Fin 0, cr_profit = Fin 0,
        cr_transactions = 0\<rparr>
       (\<lambda>g. g\<lparr>cr_revenue := jadd (cr_revenue g) (num (revenue row)),
               cr_profit := jadd (cr_profit g) (num (profit row)),
               cr_transactions := cr_transactions g + 1\<rparr>)
       grouped"

text \<open>
  \<open>Array.prototype.sort\<close> with a comparator: an element goes behind another when the
  comparator, called on the two, returns a positive number, and the sort is stable. It is
  modelled as the stable insertion sort. For a consistent comparator that is the result of
  every stable sort; for an inconsistent one the language leaves the order open.
\<close>

fun insort_cmp :: "('a \<Rightarrow> 'a \<Rightarrow> jsnum) \<Rightarrow> 'a \<Rightarrow> 'a list \<Rightarrow> 'a list" where
  "insort_cmp c x [] = [x]"
| "insort_cmp c x (y # ys) =
     (if jgt (c x y) (Fin 0) then y # insort_cmp c x ys else x # y # ys)"

definition sort_cmp :: "('a \<Rightarrow> 'a \<Rightarrow> jsnum) \<Rightarrow> 'a list \<Rightarrow> 'a list" where
  "sort_cmp c xs = foldr (insort_cmp c) xs []"

definition categoryData :: "cleaned list \<Rightarrow> category_row list" where
  "categoryData rows =
     sort_cmp (\<lambda>a b. jsub (cr_revenue b) (cr_revenue a))
       (object_values (foldl category_step [] rows))"

record month_row =
  mr_month :: string
  mr_revenue :: jsnum
  mr_profit :: jsnum

definition monthOrder :: "string list" where
  "monthOrder =
     [''Jan'', ''Feb'', ''Mar'', ''Apr'', ''May'', ''Jun'',
      ''Jul'', ''Aug'', ''Sep'', ''Oct'', ''Nov'', ''Dec'']"

definition month_step :: "month_row obj \<Rightarrow> cleaned \<Rightarrow> month_row obj" where
  "month_step grouped row =
     obj_accumulate (month row)
       \<lparr>mr_month = month row, mr_revenue = Fin 0, mr_profit = Fin 0\<rparr>
       (\<lambda>g. g\<lparr>mr_revenue := jadd (mr_revenue g) (num (revenue row)),
               mr_profit := jadd (mr_profit g) (num (profit row))\<rparr>)
       grouped"

text \<open>
  No name of \<open>monthOrder\<close> is inherited from \<open>Object.prototype\<close>, so \<open>grouped[m]\<close> is
  the own property or \<open>undefined\<close>.
\<close>

definition monthlyTrend :: "cleaned list \<Rightarrow> month_row list" where
  "monthlyTrend rows =
     (let grouped = foldl month_step [] rows
      in map (\<lambda>m. case map_of grouped m of
                     Some g \<Rightarrow> g
                   | None \<Rightarrow> \<lparr>mr_month = m, mr_revenue = Fin 0, mr_profit = Fin 0\<rparr>)
          monthOrder)"

section \<open>Reference notions used to state the properties\<close>

text \<open>The tests the pipeline's callbacks apply to a record.\<close>

definition is_missing :: "transaction \<Rightarrow> bool" where
  "is_missing row = (category row = [] \<or> customer_segment row = [])"

definition is_negative :: "transaction \<Rightarrow> bool" where
  "is_negative row = (quantity row < 0 \<or> jlt (num (revenue row)) (Fin 0))"

definition is_outlier :: "jsnum \<Rightarrow> transaction \<Rightarrow> bool" where
  "is_outlier avg row = jgt (num (revenue row)) (jmul avg (Fin 5))"

definition normalise :: "transaction \<Rightarrow> transaction" where
  "normalise r =
     (if is_negative r then r\<lparr>quantity := \<bar>quantity r\<bar>, revenue := fabs (revenue r)\<rparr>
      else r)"

text \<open>
  Deduplication as the specification words it: the record at position \<open>i\<close> is kept when
  no earlier position holds its id, and the kept records stay in input order.
\<close>

definition seen_before :: "int set \<Rightarrow> transaction list \<Rightarrow> nat \<Rightarrow> bool" where
  "seen_before S rows i =
     (transaction_id (rows ! i) \<in> S \<union> set (map transaction_id (take i rows)))"

definition first_occurrences :: "transaction list \<Rightarrow> transaction list" where
  "first_occurrences rows =
     map (\<lambda>i. rows ! i)
       (filter (\<lambda>i. transaction_id (rows ! i) \<notin> set (map transaction_id (take i rows)))
          [0..<length rows])"

definition later_occurrences :: "transaction list \<Rightarrow> nat list" where
  "later_occurrences rows =
     filter (\<lambda>i. transaction_id (rows ! i) \<in> set (map transaction_id (take i rows)))
       [0..<length rows]"

text \<open>
  The working set the outlier stage receives: the value of \<open>cleanedData\<close> in
  \<open>performETL\<close> after its first three stages.
\<close>

definition initial_log :: "transaction list \<Rightarrow> etl_log" where
  "initial_log rawData =
     \<lparr>totalRecords = length rawData, duplicatesRemoved = 0, missingValuesHandled = 0,
      negativeValuesFixed = 0, outliersRemoved = 0, recordsAfterCleaning = 0\<rparr>"

definition working_set :: "transaction list \<Rightarrow> transaction list" where
  "working_set rawData =
     (case dedup_stage rawData (initial_log rawData) of (rows1, lg1) \<Rightarrow>
        (case missing_stage rows1 lg1 of (rows2, lg2) \<Rightarrow>
           fst (negative_stage rows2 lg2)))"

text \<open>
  The arithmetic mean of the revenues as a real number, with no rounding, and the
  comparison \<open>x \<le> y\<close> of two numbers.
\<close>

definition mean_revenue :: "transaction list \<Rightarrow> real" where
  "mean_revenue rows = sum_list (map (\<lambda>r. fval (revenue r)) rows) / real (length rows)"

definition jle :: "jsnum \<Rightarrow> jsnum \<Rightarrow> bool" where
  "jle x y = (x \<noteq> NaN \<and> y \<noteq> NaN \<and> \<not> jlt y x)"

text \<open>
  A record's revenue exceeds five times the mean revenue of a set, as real numbers.
\<close>

definition exceeds :: "transaction list \<Rightarrow> 'a transaction_scheme \<Rightarrow> bool" where
  "exceeds ws r = (5 * mean_revenue ws < fval (revenue r))"

text \<open>
  The per-record margin as the specification words it: the percentage of the real
  quotient, rounded to two decimals, and no value (\<open>None\<close>, for undefined or null) when
  the revenue is zero.
\<close>

definition profit_margin_spec :: "real \<Rightarrow> real \<Rightarrow> numstr option" where
  "profit_margin_spec p r = (if r = 0 then None else Some (toFixed 2 (Fin (p / r * 100))))"

definition margin_as_specified :: "cleaned \<Rightarrow> bool" where
  "margin_as_specified r =
     (Some (profit_margin r) = profit_margin_spec (fval (profit r)) (fval (revenue r)))"

text \<open>
  The percentage of a profit in a revenue as the code computes it: the quotient rounded
  to a double, and its hundredfold rounded again.
\<close>

definition percentage :: "fnum \<Rightarrow> fnum \<Rightarrow> jsnum" where
  "percentage p r = jmul (jdiv (num p) (num r)) (Fin 100)"

text \<open>The KPI set with all five values zero, each rendered the way \<open>kpis\<close> renders it.\<close>

definition zero_kpis :: kpi_set where
  "zero_kpis =
     \<lparr>totalRevenue = toFixed 0 (Fin 0), totalProfit = toFixed 0 (Fin 0),
      totalTransactions = 0, avgOrderValue = toFixed 2 (Fin 0),
      profitMargin = toFixed 2 (Fin 0)\<rparr>"

text \<open>
  The sum of a field over a list of records as the code forms it: from 0, adding one
  record after the other in the order of the list, each addition rounded.
\<close>

definition running_sum :: "('r \<Rightarrow> fnum) \<Rightarrow> 'r list \<Rightarrow> jsnum" where
  "running_sum field rows = foldl (\<lambda>sum row. jadd sum (num (field row))) (Fin 0) rows"

text \<open>The row the month aggregation holds for a month, and the one the category
  aggregation holds for a category.\<close>

definition month_sums :: "string \<Rightarrow> cleaned list \<Rightarrow> month_row" where
  "month_sums m rows =
     \<lparr>mr_month = m,
      mr_revenue = running_sum revenue (filter (\<lambda>r. month r = m) rows),
      mr_profit = running_sum profit (filter (\<lambda>r. month r = m) rows)\<rparr>"

definition category_sums :: "string \<Rightarrow> cleaned list \<Rightarrow> category_row" where
  "category_sums c rows =
     \<lparr>cr_category = c,
      cr_revenue = running_sum revenue (filter (\<lambda>r. category r = c) rows),
      cr_profit = running_sum profit (filter (\<lambda>r. category r = c) rows),
      cr_transactions = length (filter (\<lambda>r. category r = c) rows)\<rparr>"

text \<open>The sum of a list of numbers, added from 0 in the order of the list.\<close>

definition jsum :: "jsnum list \<Rightarrow> jsnum" where
  "jsum xs = foldl jadd (Fin 0) xs"

text \<open>
  The invariant of the accumulator: own property names are pairwise different, and none
  of them is a name inherited from \<open>Object.prototype\<close>.
\<close>

definition own_keys_ok :: "'v obj \<Rightarrow> bool" where
  "own_keys_ok g = (distinct (map fst g) \<and> fst ` set g \<inter> set object_prototype_keys = {})"

text \<open>
  The number a rendered KPI denotes, read back from its decimal digits; \<open>None\<close> for a
  string that is not a decimal number.
\<close>

definition decimal_value :: "string \<Rightarrow> real option" where
  "decimal_value s =
     (let neg = (s \<noteq> [] \<and> hd s = CHR ''-'');
          t = (if neg then tl s else s);
          ip = takeWhile (\<lambda>c. c \<noteq> CHR ''.'') t;
          fp = drop (length ip + 1) t
      in if ip \<noteq> [] \<and> list_all (\<lambda>c. digit_of c \<noteq> None) (ip @ fp)
         then Some ((if neg then - 1 else 1)
                    * (real (digits_val ip) + real (digits_val fp) / 10 ^ length fp))
         else None)"

definition numstr_value :: "numstr \<Rightarrow> real option" where
  "numstr_value s = (case s of Str t \<Rightarrow> decimal_value t | ToStr v \<Rightarrow> Some v)"

text \<open>
  A real rounded to \<open>f\<close> decimals, a tie going away from zero, and the digits
  \<open>toFixed\<close> writes for a rounded magnitude.
\<close>

definition round_half_away :: "nat \<Rightarrow> real \<Rightarrow> real" where
  "round_half_away f v = sgn v * real_of_int \<lfloor>\<bar>v\<bar> * 10 ^ f + 1 / 2\<rfloor> / 10 ^ f"

definition fixed_digits :: "nat \<Rightarrow> nat \<Rightarrow> string" where
  "fixed_digits f n =
     (let m = nat_digits n
      in if f = 0 then m
         else let z = replicate (f + 1 - length m) (CHR ''0'');
                  m = z @ m;
                  k = length m
              in take (k - f) m @ ''.'' @ drop (k - f) m)"

text \<open>
  The smallest normal double, the grid of the doubles (the multiples of the smallest
  subnormal one), and the values an arithmetic operation can return other than \<open>NaN\<close>.
\<close>

definition min_normal :: real where
  "min_normal = 1 / 2 ^ 1022"

definition on_grid :: "real \<Rightarrow> bool" where
  "on_grid v = (\<exists>k::int. v = of_int k * 2 powi (- 1074))"

definition dval :: "jsnum \<Rightarrow> bool" where
  "dval x = (case x of Fin v \<Rightarrow> on_grid v | NaN \<Rightarrow> False | _ \<Rightarrow> True)"

section \<open>Concrete inputs\<close>

text \<open>
  Two run-time environments with English month names, one at UTC and one five hours west
  of it, and a few small record sets on which the properties below are evaluated. Every
  number in them is a double: a whole number below \<open>2^53\<close>, the number
  \<open>10^16 = 5^16 * 2^16\<close>, or fewer than \<open>2^53\<close> units of \<open>2^-47\<close> or \<open>2^-48\<close>.
\<close>

definition env_utc :: env where
  "env_utc = \<lparr>tz_offset = 0, month_short = english_short\<rparr>"

definition env_new_york :: env where
  "env_new_york = \<lparr>tz_offset = - 300, month_short = english_short\<rparr>"

definition sample_row ::
  "int \<Rightarrow> isodate \<Rightarrow> string \<Rightarrow> string \<Rightarrow> int \<Rightarrow> real \<Rightarrow> real \<Rightarrow> real \<Rightarrow> transaction" where
  "sample_row i d cat seg q rv c p =
     \<lparr>transaction_id = i, date = d, category = cat, region = ''North'',
      channel = ''Online'', customer_segment = seg, quantity = q, unit_price = F 100,
      revenue = F rv, cost = F c, profit = F p, issue_flag = ''clean''\<rparr>"

definition scenario_raw :: "transaction list" where
  "scenario_raw =
     [sample_row 1 (IsoDate 2023 3 5) ''Books'' ''Premium'' 2 200 150 50,
      sample_row 1 (IsoDate 2023 3 6) ''Toys'' ''Regular'' 1 100 60 40,
      sample_row 2 (IsoDate 2023 5 9) '''' ''Regular'' 1 10 5 5,
      sample_row 3 (IsoDate 2023 7 1) ''Toys'' ''Budget'' (- 3) (- 60) 40 20]"

definition outlier_raw :: "transaction list" where
  "outlier_raw =
     map (\<lambda>i. sample_row i (IsoDate 2023 2 14) ''Books'' ''Regular'' 1 1 0 1)
       [1, 2, 3, 4, 5, 6]
     @ [sample_row 7 (IsoDate 2023 2 15) ''Books'' ''Regular'' 1 50 10 40]"

definition scenario_cleaned :: "cleaned list" where
  "scenario_cleaned = cleanedData (performETL env_utc scenario_raw)"

definition negative_row :: transaction where
  "negative_row = sample_row 3 (IsoDate 2023 7 1) ''Toys'' ''Budget'' (- 3) (- 60) 40 20"

definition zero_revenue_raw :: "transaction list" where
  "zero_revenue_raw = [sample_row 1 (IsoDate 2023 1 15) ''Books'' ''Regular'' 1 0 0 0]"

definition april_first_raw :: "transaction list" where
  "april_first_raw = [sample_row 1 (IsoDate 2023 4 1) ''Books'' ''Regular'' 1 100 60 40]"

text \<open>
  A profit of 23 on a revenue of 160: the percentage is 14.375 in the reals, and
  \<open>14.374999999999998\<close> as the code computes it.
\<close>

definition tie_raw :: "transaction list" where
  "tie_raw = [sample_row 1 (IsoDate 2023 1 15) ''Books'' ''Regular'' 1 160 137 23]"

text \<open>
  Five records of revenue 1 and one of \<open>25 + 2^-48\<close>, the double next above 25; and the
  same with every revenue doubled.
\<close>

definition near_raw :: "transaction list" where
  "near_raw =
     map (\<lambda>i. sample_row i (IsoDate 2023 2 14) ''Books'' ''Regular'' 1 1 0 1)
       [1, 2, 3, 4, 5]
     @ [sample_row 6 (IsoDate 2023 2 15) ''Books'' ''Regular'' 1 (25 + 1 / 2 ^ 48) 10 15]"

definition near_double_raw :: "transaction list" where
  "near_double_raw =
     map (\<lambda>i. sample_row i (IsoDate 2023 2 14) ''Toys'' ''Regular'' 1 2 0 2)
       [1, 2, 3, 4, 5]
     @ [sample_row 6 (IsoDate 2023 2 15) ''Toys'' ''Regular'' 1 (50 + 1 / 2 ^ 47) 20 30]"

text \<open>
  A revenue of \<open>10^16\<close>, where neighbouring doubles are 2 apart, and two of 1 in another
  category.
\<close>

definition large_raw :: "transaction list" where
  "large_raw =
     [sample_row 1 (IsoDate 2023 1 15) ''Books'' ''Regular'' 1 (10 ^ 16) 0 0,
      sample_row 2 (IsoDate 2023 1 16) ''Toys'' ''Regular'' 1 1 0 0,
      sample_row 3 (IsoDate 2023 1 17) ''Toys'' ''Regular'' 1 1 0 0]"

definition large_cleaned :: "cleaned list" where
  "large_cleaned = cleanedData (performETL env_utc large_raw)"

section \<open>Rounding to the nearest double\<close>

lemma expo_up_spec:
  "1 \<le> x \<Longrightarrow>
   \<exists>d \<le> n. expo_up n x e = e + int d \<and> 2 ^ d \<le> x \<and> (x < 2 ^ Suc d \<or> d = n)"
proof (induction n arbitrary: x e)
  case 0
  then show ?case by simp
next
  case (Suc n)
  show ?case
  proof (cases "2 \<le> x")
    case True
    then have "1 \<le> x / 2" by simp
    from Suc.IH [OF this, of "e + 1"] obtain d where
      d: "d \<le> n" "expo_up n (x / 2) (e + 1) = e + 1 + int d" "2 ^ d \<le> x / 2"
         "x / 2 < 2 ^ Suc d \<or> d = n"
      by blast
    show ?thesis
    proof (intro exI [of _ "Suc d"] conjI)
      show "Suc d \<le> Suc n" using d(1) by simp
      show "expo_up (Suc n) x e = e + int (Suc d)" using True d(2) by simp
      show "2 ^ Suc d \<le> x" using d(3) by simp
      show "x < 2 ^ Suc (Suc d) \<or> Suc d = Suc n" using d(4) by auto
    qed
  next
    case False
    with Suc.prems show ?thesis
      by (intro exI [of _ 0]) simp
  qed
qed

lemma expo_down_spec:
  "0 < x \<Longrightarrow> x < 2 \<Longrightarrow>
   \<exists>d \<le> n. expo_down n x e = e - int d \<and> (1 \<le> x * 2 ^ d \<or> d = n) \<and> x * 2 ^ d < 2"
proof (induction n arbitrary: x e)
  case 0
  then show ?case by simp
next
  case (Suc n)
  show ?case
  proof (cases "x < 1")
    case True
    with Suc.prems have "0 < x * 2" "x * 2 < 2" by simp_all
    from Suc.IH [OF this, of "e - 1"] obtain d where
      d: "d \<le> n" "expo_down n (x * 2) (e - 1) = e - 1 - int d"
         "1 \<le> x * 2 * 2 ^ d \<or> d = n" "x * 2 * 2 ^ d < 2"
      by blast
    show ?thesis
    proof (intro exI [of _ "Suc d"] conjI)
      show "Suc d \<le> Suc n" using d(1) by simp
      show "expo_down (Suc n) x e = e - int (Suc d)" using True d(2) by simp
      show "1 \<le> x * 2 ^ Suc d \<or> Suc d = Suc n" using d(3) by (auto simp: mult.assoc)
      show "x * 2 ^ Suc d < 2" using d(4) by (simp add: mult.assoc)
    qed
  next
    case False
    with Suc.prems show ?thesis
      by (intro exI [of _ 0]) simp
  qed
qed

lemma powi_nat: "2 powi (int d) = (2::real) ^ d"
  by simp

lemma powi_neg: "2 powi (- int d) = 1 / (2::real) ^ d"
  by (simp add: power_int_minus divide_inverse)

lemma powi_Suc: "2 powi (k + 1) = 2 * (2::real) powi k"
  by (simp add: power_int_add)

lemma expo_ge_1:
  assumes "1 \<le> x" and "x < overflow_threshold"
  shows "0 \<le> expo x \<and> expo x \<le> 1023 \<and> 2 powi (expo x) \<le> x \<and> x < 2 powi (expo x + 1)"
proof -
  from expo_up_spec [OF assms(1), of 1024 0] obtain d where
    d: "d \<le> 1024" "expo_up 1024 x 0 = int d" "2 ^ d \<le> x" "x < 2 ^ Suc d \<or> d = 1024"
    by auto
  from d(3) assms(2) have "(2::real) ^ d < 2 ^ 1024"
    unfolding overflow_threshold_def by (rule le_less_trans)
  then have dl: "d < 1024" by (simp del: power_numeral)
  with d(4) have up: "x < 2 ^ Suc d" by auto
  have e: "expo x = int d" using assms(1) d(2) by (simp add: expo_def)
  have "2 powi (int d + 1) = (2::real) ^ Suc d"
    unfolding powi_Suc powi_nat by simp
  with up have p2: "x < 2 powi (int d + 1)" by simp
  from d(3) have p1: "2 powi (int d) \<le> x" unfolding powi_nat .
  from dl have "int d \<le> 1023" by simp
  with p1 p2 show ?thesis unfolding e by simp
qed

lemma expo_lt_1:
  assumes "min_normal \<le> x" and "x < 1"
  shows "- 1022 \<le> expo x \<and> expo x \<le> 0 \<and> 2 powi (expo x) \<le> x \<and> x < 2 powi (expo x + 1)"
proof -
  have "0 < min_normal" unfolding min_normal_def by (simp del: power_numeral)
  with assms(1) have pos: "0 < x" by simp
  from assms(2) have x2: "x < 2" by simp
  from expo_down_spec [OF pos x2, of 1022 0] obtain d where
    d: "d \<le> 1022" "expo_down 1022 x 0 = - int d" "1 \<le> x * 2 ^ d \<or> d = 1022" "x * 2 ^ d < 2"
    by auto
  have e: "expo x = - int d" using assms(2) d(2) by (simp add: expo_def)
  have lo: "1 \<le> x * 2 ^ d"
  proof (cases "d = 1022")
    case True
    have "min_normal * 2 ^ 1022 = 1"
      unfolding min_normal_def by (simp del: power_numeral)
    moreover have "min_normal * 2 ^ 1022 \<le> x * 2 ^ 1022"
      using assms(1) by (simp del: power_numeral)
    ultimately show ?thesis unfolding True by simp
  next
    case False
    with d(3) show ?thesis by simp
  qed
  have pw: "0 < (2::real) ^ d" by simp
  from lo pw have p1: "2 powi (- int d) \<le> x"
    unfolding powi_neg by (simp add: pos_divide_le_eq)
  have "2 powi (- int d + 1) = 2 / (2::real) ^ d"
    unfolding powi_Suc powi_neg by simp
  moreover from d(4) pw have "x < 2 / 2 ^ d"
    by (simp add: pos_less_divide_eq)
  ultimately have p2: "x < 2 powi (- int d + 1)" by simp
  from d(1) have "- 1022 \<le> - int d" "- int d \<le> 0" by simp_all
  with p1 p2 show ?thesis unfolding e by simp
qed

lemma expo_normal:
  assumes "min_normal \<le> x" and "x < overflow_threshold"
  shows "- 1022 \<le> expo x \<and> expo x \<le> 1023 \<and> 2 powi (expo x) \<le> x \<and> x < 2 powi (expo x + 1)"
proof (cases "1 \<le> x")
  case True
  from expo_ge_1 [OF True assms(2)] show ?thesis by simp
next
  case False
  then have "x < 1" by simp
  from expo_lt_1 [OF assms(1) this] show ?thesis by simp
qed

lemma expo_subnormal:
  assumes "0 < x" and "x < min_normal"
  shows "expo x = - 1022"
proof -
  have m1: "min_normal \<le> 1" unfolding min_normal_def by (simp del: power_numeral)
  with assms(2) have x1: "x < 1" by simp
  then have x2: "x < 2" by simp
  from expo_down_spec [OF assms(1) x2, of 1022 0] obtain d where
    d: "d \<le> 1022" "expo_down 1022 x 0 = - int d" "1 \<le> x * 2 ^ d \<or> d = 1022" "x * 2 ^ d < 2"
    by auto
  have e: "expo x = - int d" using x1 d(2) by (simp add: expo_def)
  have "d = 1022"
  proof (rule ccontr)
    assume n: "d \<noteq> 1022"
    with d(3) have lo: "1 \<le> x * 2 ^ d" by simp
    from n d(1) have "d \<le> 1022" by simp
    then have "(2::real) ^ d \<le> 2 ^ 1022"
      by (simp del: power_numeral)
    then have "x * 2 ^ d \<le> x * 2 ^ 1022"
      using assms(1) by (simp del: power_numeral)
    also have "\<dots> < min_normal * 2 ^ 1022"
      using assms(2) by (simp del: power_numeral)
    also have "\<dots> = 1" unfolding min_normal_def by (simp del: power_numeral)
    finally show False using lo by simp
  qed
  with e show ?thesis by simp
qed

lemma powi_less_imp: "2 powi e < (2::real) powi f \<Longrightarrow> e < f"
proof (rule ccontr)
  assume a: "2 powi e < (2::real) powi f" and "\<not> e < f"
  then have "f \<le> e" by simp
  then have "(2::real) powi f \<le> 2 powi e" by (rule power_int_increasing) simp
  with a show False by simp
qed

lemma powi_pos: "0 < (2::real) powi k"
  by (rule zero_less_power_int) simp

lemma round_even_of_int: "round_even (of_int i) = i"
  by (simp add: round_even_def)

lemma round_even_ge_floor: "\<lfloor>y\<rfloor> \<le> round_even y"
  by (simp add: round_even_def Let_def)

lemma round_even_near:
  assumes "\<bar>y - of_int n\<bar> < 1 / 2"
  shows "round_even y = n"
proof -
  consider "of_int n \<le> y" | "y < of_int n" by linarith
  then show ?thesis
  proof cases
    case 1
    with assms have "\<lfloor>y\<rfloor> = n" by (intro floor_unique) linarith+
    with assms 1 show ?thesis by (simp add: round_even_def Let_def)
  next
    case 2
    with assms have f: "\<lfloor>y\<rfloor> = n - 1" by (intro floor_unique) (simp, linarith)+
    with assms 2 show ?thesis by (auto simp: round_even_def Let_def)
  qed
qed

lemma round_even_tie_down:
  assumes "y - of_int n = 1 / 2" and "even n"
  shows "round_even y = n"
proof -
  from assms(1) have "\<lfloor>y\<rfloor> = n" by (intro floor_unique) linarith+
  with assms show ?thesis by (simp add: round_even_def Let_def)
qed

lemma round_even_tie_up:
  assumes "of_int n - y = 1 / 2" and "even n"
  shows "round_even y = n"
proof -
  from assms(1) have f: "\<lfloor>y\<rfloor> = n - 1" by (intro floor_unique) (simp, linarith)+
  from assms(1) have d: "y - of_int (n - 1) = 1 / 2" by simp
  from assms(2) have "odd (n - 1)" by simp
  with f d show ?thesis by (simp add: round_even_def Let_def)
qed

text \<open>The rounding of a positive real in the normal range, given its exponent.\<close>

lemma expo_unique:
  assumes "2 powi e \<le> x" and "x < 2 powi (e + 1)" and "- 1022 \<le> e" and "e \<le> 1023"
  shows "expo x = e"
proof -
  have "min_normal = 2 powi (- 1022)"
    unfolding min_normal_def using powi_neg [of 1022] by (simp del: power_numeral power_int_numeral_neg_numeral)
  also have "\<dots> \<le> 2 powi e" using assms(3) by (intro power_int_increasing) simp_all
  finally have lo: "min_normal \<le> x" using assms(1) by linarith
  have "2 powi (e + 1) \<le> (2::real) powi 1024"
    using assms(4) by (intro power_int_increasing) simp_all
  also have "\<dots> = overflow_threshold"
    unfolding overflow_threshold_def by (simp del: power_numeral)
  finally have hi: "x < overflow_threshold" using assms(2) by simp
  from expo_normal [OF lo hi] have
    b: "2 powi (expo x) \<le> x" "x < 2 powi (expo x + 1)" by simp_all
  from assms(1) b(2) have "2 powi e < (2::real) powi (expo x + 1)" by simp
  then have 1: "e < expo x + 1" by (rule powi_less_imp)
  from b(1) assms(2) have "2 powi (expo x) < (2::real) powi (e + 1)" by simp
  then have 2: "expo x < e + 1" by (rule powi_less_imp)
  from 1 2 show ?thesis by simp
qed

lemma round_even_le: "of_int (round_even y) \<le> y + 1"
proof -
  have "round_even y \<le> \<lfloor>y\<rfloor> + 1" by (simp add: round_even_def Let_def)
  then have "real_of_int (round_even y) \<le> of_int (\<lfloor>y\<rfloor> + 1)" by (simp only: of_int_le_iff)
  also have "\<dots> \<le> y + 1" by simp
  finally show ?thesis .
qed

lemma powi_1024: "(2::real) powi 1024 = overflow_threshold"
  unfolding overflow_threshold_def by (simp del: power_numeral)

lemma fl_normal:
  assumes x: "2 powi e \<le> \<bar>x\<bar>" "\<bar>x\<bar> < 2 powi (e + 1)" and e: "- 1022 \<le> e" "e \<le> 1022"
      and n: "round_even (\<bar>x\<bar> / 2 powi (e - 52)) = n"
  shows "fl x = Fin (if 0 < x then of_int n * 2 powi (e - 52)
                     else - (of_int n * 2 powi (e - 52)))"
proof -
  have pos: "0 < \<bar>x\<bar>" using x(1) powi_pos [of e] by linarith
  then have nz: "x \<noteq> 0" by simp
  have ex: "expo \<bar>x\<bar> = e"
    using x e by (intro expo_unique) simp_all
  let ?q = "(2::real) powi (e - 52)"
  have q: "0 < ?q" by (rule powi_pos)
  have "?q \<le> 2 powi e" by (intro power_int_increasing) simp_all
  with x(1) have "?q \<le> \<bar>x\<bar>" by linarith
  with q have "1 \<le> \<bar>x\<bar> / ?q" by (simp add: pos_le_divide_eq)
  then have "1 \<le> \<lfloor>\<bar>x\<bar> / ?q\<rfloor>" by (simp add: le_floor_iff)
  with round_even_ge_floor [of "\<bar>x\<bar> / ?q"] n have n1: "1 \<le> n" by linarith
  then have mpos: "0 < of_int n * ?q" using q by simp
  have "of_int n \<le> \<bar>x\<bar> / ?q + 1" using round_even_le [of "\<bar>x\<bar> / ?q"] n by simp
  then have "of_int n * ?q \<le> (\<bar>x\<bar> / ?q + 1) * ?q"
    using q by (simp only: mult_le_cancel_right_pos)
  also have "\<dots> = \<bar>x\<bar> + ?q" using q by (simp add: field_simps)
  also have "\<dots> < 2 powi (e + 1) + 2 powi (e + 1)"
  proof -
    have "?q \<le> 2 powi (e + 1)" by (intro power_int_increasing) simp_all
    with x(2) show ?thesis by linarith
  qed
  also have "\<dots> = 2 powi (e + 2)"
    using powi_Suc [of "e + 1"] by (simp add: add.commute)
  also have "\<dots> \<le> 2 powi 1024"
    using e(2) by (intro power_int_increasing) simp_all
  finally have hi: "of_int n * ?q < overflow_threshold" unfolding powi_1024 .
  have "fl x = (let q = 2 powi (expo \<bar>x\<bar> - 52);
                    m = of_int (round_even (\<bar>x\<bar> / q)) * q
                in if overflow_threshold \<le> m then (if 0 < x then PosInf else NegInf)
                   else if m = 0 then (if 0 < x then Fin 0 else NegZero)
                   else Fin (if 0 < x then m else - m))"
    using nz by (simp add: fl_def)
  also have "\<dots> = Fin (if 0 < x then of_int n * ?q else - (of_int n * ?q))"
    unfolding Let_def ex n using mpos hi n1 by simp
  finally show ?thesis .
qed

lemma min_normal_powi: "min_normal = 2 powi (- 1022)"
  unfolding min_normal_def using powi_neg [of 1022]
  by (simp del: power_numeral power_int_numeral_neg_numeral)

lemma fl_dyadic:
  assumes k: "k \<noteq> 0" "\<bar>k\<bar> < 2 ^ 53" and j: "- 1022 \<le> j" "j \<le> 960"
  shows "fl (of_int k * 2 powi j) = Fin (of_int k * 2 powi j)"
proof -
  let ?x = "of_int k * (2::real) powi j"
  define a where "a = real_of_int \<bar>k\<bar>"
  have pj: "0 < (2::real) powi j" by (rule powi_pos)
  have ax: "\<bar>?x\<bar> = a * 2 powi j"
    using pj by (simp add: abs_mult a_def)
  from k(1) have "1 \<le> \<bar>k\<bar>" by simp
  then have a1: "1 \<le> a" unfolding a_def by (simp only: of_int_1_le_iff)
  from k(2) have "real_of_int \<bar>k\<bar> < real_of_int (2 ^ 53)" by (simp only: of_int_less_iff)
  then have a2: "a < 2 powi 53" unfolding a_def by (simp del: power_numeral of_int_abs)
  have "1 * 2 powi j \<le> a * 2 powi j"
    using a1 pj by (intro mult_right_mono) simp_all
  then have lo: "2 powi j \<le> \<bar>?x\<bar>" unfolding ax by simp
  have "min_normal \<le> 2 powi j"
    unfolding min_normal_powi using j(1) by (intro power_int_increasing) simp_all
  with lo have mn: "min_normal \<le> \<bar>?x\<bar>" by linarith
  have "a * 2 powi j < 2 powi 53 * 2 powi j"
    using a2 pj by (simp only: mult_less_cancel_right_pos)
  also have "\<dots> = 2 powi (53 + j)"
    by (rule power_int_add [symmetric]) simp
  finally have hi: "\<bar>?x\<bar> < 2 powi (53 + j)" unfolding ax .
  have "(2::real) powi (53 + j) \<le> 2 powi 1024"
    using j(2) by (intro power_int_increasing) simp_all
  with hi have ov: "\<bar>?x\<bar> < overflow_threshold" unfolding powi_1024 by linarith
  define e where "e = expo \<bar>?x\<bar>"
  from expo_normal [OF mn ov] have
    eb: "- 1022 \<le> e" "2 powi e \<le> \<bar>?x\<bar>" "\<bar>?x\<bar> < 2 powi (e + 1)"
    unfolding e_def by simp_all
  from eb(2) hi have "(2::real) powi e < 2 powi (53 + j)" by linarith
  then have e1: "e < 53 + j" by (rule powi_less_imp)
  with j(2) have e2: "e \<le> 1022" by simp
  define d where "d = nat (j - e + 52)"
  have d: "int d = j - e + 52" unfolding d_def using e1 by simp
  define q where "q = (2::real) powi (e - 52)"
  have q: "0 < q" unfolding q_def by (rule powi_pos)
  have "(2::real) powi (int d + (e - 52)) = 2 powi (int d) * 2 powi (e - 52)"
    by (rule power_int_add) simp
  moreover have "int d + (e - 52) = j" using d by simp
  ultimately have pjq: "2 powi j = 2 ^ d * q" unfolding q_def powi_nat by simp
  have "\<bar>?x\<bar> / q = a * 2 powi j / q" by (simp only: ax)
  also have "\<dots> = a * (2 ^ d * q) / q" by (simp only: pjq)
  also have "\<dots> = a * 2 ^ d" using q by simp
  also have "\<dots> = of_int (\<bar>k\<bar> * 2 ^ d)" unfolding a_def by simp
  finally have t: "\<bar>?x\<bar> / q = of_int (\<bar>k\<bar> * 2 ^ d)" .
  have n: "round_even (\<bar>?x\<bar> / q) = \<bar>k\<bar> * 2 ^ d"
    unfolding t by (rule round_even_of_int)
  from t q have bk: "real_of_int (\<bar>k\<bar> * 2 ^ d) * q = \<bar>?x\<bar>"
    by (simp add: nonzero_divide_eq_eq del: of_int_mult of_int_abs of_int_power)
  from fl_normal [OF eb(2) eb(3) eb(1) e2 n [unfolded q_def]]
  have "fl ?x = Fin (if 0 < ?x then \<bar>?x\<bar> else - \<bar>?x\<bar>)"
    unfolding bk [unfolded q_def] .
  then show ?thesis by simp
qed

lemma fl_int: "k \<noteq> 0 \<Longrightarrow> \<bar>k\<bar> < 2 ^ 53 \<Longrightarrow> fl (of_int k) = Fin (of_int k)"
  using fl_dyadic [of k 0] by simp

lemma expo_up_ge: "e \<le> expo_up n x e"
proof (induction n arbitrary: x e)
  case 0
  show ?case by simp
next
  case (Suc n)
  from Suc [of "e + 1" "x / 2"] show ?case by simp
qed

lemma expo_down_ge: "e - int n \<le> expo_down n x e"
proof (induction n arbitrary: x e)
  case 0
  show ?case by simp
next
  case (Suc n)
  from Suc [of "e - 1" "x * 2"] show ?case by simp
qed

lemma expo_ge: "- 1022 \<le> expo x"
  using expo_up_ge [of 0 1024 x] expo_down_ge [of 0 1022 x]
  by (simp add: expo_def)

lemma grid_quantum:
  assumes "- 1022 \<le> e"
  shows "on_grid (of_int n * 2 powi (e - 52))"
proof -
  define d where "d = nat (e + 1022)"
  have d: "int d = e + 1022" unfolding d_def using assms by simp
  have "(2::real) powi (int d + (- 1074)) = 2 powi (int d) * 2 powi (- 1074)"
    by (rule power_int_add) simp
  moreover have "int d + (- 1074) = e - 52" using d by simp
  ultimately have "(2::real) powi (e - 52) = 2 ^ d * 2 powi (- 1074)"
    unfolding powi_nat by simp
  then have "of_int n * (2::real) powi (e - 52) = of_int (n * 2 ^ d) * 2 powi (- 1074)"
    by (simp del: power_int_numeral_neg_numeral)
  then show ?thesis unfolding on_grid_def by blast
qed

lemma on_grid_minus: "on_grid v \<Longrightarrow> on_grid (- v)"
proof -
  assume "on_grid v"
  then obtain k :: int where "v = of_int k * 2 powi (- 1074)" unfolding on_grid_def by blast
  then have "- v = of_int (- k) * 2 powi (- 1074)" by (simp del: power_int_numeral_neg_numeral)
  then show ?thesis unfolding on_grid_def by blast
qed

lemma on_grid_0: "on_grid 0"
  unfolding on_grid_def by (rule exI [of _ 0]) simp

lemma on_grid_diff: "on_grid a \<Longrightarrow> on_grid b \<Longrightarrow> on_grid (a - b)"
proof -
  assume "on_grid a" "on_grid b"
  then obtain k l :: int where "a = of_int k * 2 powi (- 1074)" "b = of_int l * 2 powi (- 1074)"
    unfolding on_grid_def by blast
  then have "a - b = of_int (k - l) * 2 powi (- 1074)"
    by (simp add: algebra_simps del: power_int_numeral_neg_numeral)
  then show ?thesis unfolding on_grid_def by blast
qed

lemma on_grid_pos:
  assumes "on_grid v" and "0 < v"
  shows "2 powi (- 1074) \<le> v"
proof -
  from assms(1) obtain k :: int where k: "v = of_int k * 2 powi (- 1074)"
    unfolding on_grid_def by blast
  have p: "0 < (2::real) powi (- 1074)" by (rule powi_pos)
  from assms(2) k p have "0 < real_of_int k"
    by (simp add: zero_less_mult_iff del: power_int_numeral_neg_numeral)
  then have "1 \<le> real_of_int k" by simp
  then have "1 * 2 powi (- 1074) \<le> real_of_int k * 2 powi (- 1074)"
    using p by (intro mult_right_mono) simp_all
  then show ?thesis unfolding k by (simp del: power_int_numeral_neg_numeral)
qed

lemma fl_shape:
  "fl x = Fin 0 \<or> fl x = NegZero \<or> fl x = PosInf \<or> fl x = NegInf \<or>
   fl x = Fin (of_int (round_even (\<bar>x\<bar> / 2 powi (expo \<bar>x\<bar> - 52))) * 2 powi (expo \<bar>x\<bar> - 52)) \<or>
   fl x = Fin (- (of_int (round_even (\<bar>x\<bar> / 2 powi (expo \<bar>x\<bar> - 52))) * 2 powi (expo \<bar>x\<bar> - 52)))"
  by (simp add: fl_def Let_def)

lemma dval_fl: "dval (fl x)"
proof -
  let ?m = "of_int (round_even (\<bar>x\<bar> / 2 powi (expo \<bar>x\<bar> - 52))) * (2::real) powi (expo \<bar>x\<bar> - 52)"
  have g: "on_grid ?m" by (rule grid_quantum [OF expo_ge])
  then have g': "on_grid (- ?m)" by (rule on_grid_minus)
  from fl_shape [of x] g g' on_grid_0 show ?thesis
    by (auto simp: dval_def)
qed

lemma fl_not_nan: "fl x \<noteq> NaN"
  using dval_fl [of x] by (auto simp: dval_def)

lemma quantum_le:
  assumes "2 powi (- 1074) \<le> x"
  shows "2 powi (expo x - 52) \<le> x"
proof (cases "x < min_normal")
  case True
  have "0 < x" using assms powi_pos [of "- 1074"] by linarith
  from expo_subnormal [OF this True] have "expo x - 52 = - 1074" by simp
  then have "(2::real) powi (expo x - 52) = 2 powi (- 1074)" by (rule arg_cong)
  with assms show ?thesis by (simp only:)
next
  case False
  then have mn: "min_normal \<le> x" by simp
  have "2 powi (expo x) \<le> x"
  proof (cases "x < overflow_threshold")
    case True
    from expo_normal [OF mn True] show ?thesis by simp
  next
    case False
    then have big: "overflow_threshold \<le> x" by simp
    have "1 \<le> overflow_threshold" unfolding overflow_threshold_def by (simp del: power_numeral)
    with big have x1: "1 \<le> x" by simp
    from expo_up_spec [OF x1, of 1024 0] obtain d where
      "expo_up 1024 x 0 = int d" "2 ^ d \<le> x" by auto
    with x1 show ?thesis by (simp add: expo_def)
  qed
  moreover have "(2::real) powi (expo x - 52) \<le> 2 powi (expo x)"
    by (intro power_int_increasing) simp_all
  ultimately show ?thesis by linarith
qed

lemma fl_pos_sign:
  assumes "0 < x" and "on_grid x"
  shows "jgt (fl x) (Fin 0)"
proof -
  let ?q = "(2::real) powi (expo \<bar>x\<bar> - 52)"
  have q: "0 < ?q" by (rule powi_pos)
  from on_grid_pos [OF assms(2) assms(1)] have "2 powi (- 1074) \<le> \<bar>x\<bar>" using assms(1) by simp
  from quantum_le [OF this] have "?q \<le> \<bar>x\<bar>" .
  with q have "1 \<le> \<bar>x\<bar> / ?q" by (simp add: pos_le_divide_eq)
  then have "1 \<le> \<lfloor>\<bar>x\<bar> / ?q\<rfloor>" by (simp add: le_floor_iff)
  with round_even_ge_floor [of "\<bar>x\<bar> / ?q"] have "1 \<le> round_even (\<bar>x\<bar> / ?q)" by linarith
  then have n1: "1 \<le> round_even (x / 2 powi (expo x - 52))" using assms(1) by simp
  then have "0 < of_int (round_even (x / 2 powi (expo x - 52))) * (2::real) powi (expo x - 52)"
    using q assms(1) by simp
  with assms(1) n1 show ?thesis
    by (auto simp: fl_def Let_def jgt_def jlt_def)
qed

lemma fl_neg_sign:
  assumes "x \<le> 0"
  shows "\<not> jgt (fl x) (Fin 0)"
proof -
  let ?q = "(2::real) powi (expo \<bar>x\<bar> - 52)"
  have q: "0 < ?q" by (rule powi_pos)
  have "0 \<le> \<bar>x\<bar> / ?q" using q by simp
  then have "0 \<le> \<lfloor>\<bar>x\<bar> / ?q\<rfloor>" by simp
  with round_even_ge_floor [of "\<bar>x\<bar> / ?q"] have "0 \<le> round_even (\<bar>x\<bar> / ?q)" by linarith
  then have "0 \<le> of_int (round_even (\<bar>x\<bar> / ?q)) * ?q" using q by simp
  with assms show ?thesis
    by (simp add: fl_def Let_def jgt_def jlt_def)
qed

lemma comparator_sign:
  assumes "dval u" and "dval v"
  shows "jgt (jsub v u) (Fin 0) = jlt u v"
proof (cases "is_finite u \<and> is_finite v")
  case False
  with assms show ?thesis
    by (cases u; cases v) (simp_all add: jsub_def jadd_def jgt_def jlt_def dval_def)
next
  case True
  have gu: "on_grid (mag u)" using assms(1) True by (cases u) (simp_all add: dval_def on_grid_0)
  have gv: "on_grid (mag v)" using assms(2) True by (cases v) (simp_all add: dval_def on_grid_0)
  have lt: "jlt u v = (mag u < mag v)" using True by (cases u; cases v) (simp_all add: jlt_def)
  show ?thesis
  proof (cases "v = NegZero \<and> jneg u = NegZero")
    case True
    then have "u = Fin 0" by (cases u) (simp_all split: if_splits)
    with True show ?thesis by (simp add: jsub_def jadd_def jgt_def jlt_def)
  next
    case nz: False
    have m: "mag (jneg u) = - mag u" by (cases u) simp_all
    have f: "is_finite (jneg u)" "jneg u \<noteq> NaN" "v \<noteq> NaN" using True by (cases u; cases v; simp)+
    from nz True f have s: "jsub v u = fl (mag v - mag u)"
      by (auto simp: jsub_def jadd_def m)
    show ?thesis
    proof (cases "0 < mag v - mag u")
      case True
      from fl_pos_sign [OF True on_grid_diff [OF gv gu]] True show ?thesis
        unfolding s lt by simp
    next
      case False
      then have "mag v - mag u \<le> 0" by simp
      from fl_neg_sign [OF this] False show ?thesis unfolding s lt by simp
    qed
  qed
qed

lemma jlt_asym: "jlt x y \<Longrightarrow> \<not> jlt y x"
  by (cases x; cases y) (simp_all add: jlt_def)

lemma not_jlt_trans:
  assumes "x \<noteq> NaN" "y \<noteq> NaN" "z \<noteq> NaN" and "\<not> jlt x y" "\<not> jlt y z"
  shows "\<not> jlt x z"
  using assms by (cases x; cases y; cases z) (simp_all add: jlt_def)

lemma set_insort_cmp: "set (insort_cmp c x ys) = insert x (set ys)"
  by (induction ys) auto

lemma set_sort_cmp: "set (sort_cmp c xs) = set xs"
  unfolding sort_cmp_def by (induction xs) (simp_all add: set_insort_cmp)

lemma length_insort_cmp: "length (insort_cmp c x ys) = Suc (length ys)"
  by (induction ys) auto

lemma length_sort_cmp: "length (sort_cmp c xs) = length xs"
  unfolding sort_cmp_def by (induction xs) (simp_all add: length_insort_cmp)

lemma sorted_insort_cmp:
  assumes cmp: "\<And>b. b \<in> set ys \<Longrightarrow> jgt (c x b) (Fin 0) = jlt (key x) (key b)"
      and nn: "key x \<noteq> NaN" "\<forall>b \<in> set ys. key b \<noteq> NaN"
      and srt: "sorted_wrt (\<lambda>a b. \<not> jlt (key a) (key b)) ys"
  shows "sorted_wrt (\<lambda>a b. \<not> jlt (key a) (key b)) (insort_cmp c x ys)"
  using cmp nn(2) srt
proof (induction ys)
  case Nil
  show ?case by simp
next
  case (Cons y ys)
  show ?case
  proof (cases "jlt (key x) (key y)")
    case True
    then have g: "jgt (c x y) (Fin 0)" using Cons.prems(1) [of y] by simp
    have rest: "sorted_wrt (\<lambda>a b. \<not> jlt (key a) (key b)) (insort_cmp c x ys)"
      using Cons.prems by (intro Cons.IH) simp_all
    have "\<not> jlt (key y) (key x)" using True by (rule jlt_asym)
    with rest Cons.prems(3) g show ?thesis
      by (simp add: set_insort_cmp)
  next
    case False
    then have g: "\<not> jgt (c x y) (Fin 0)" using Cons.prems(1) [of y] by simp
    have "\<not> jlt (key x) (key b)" if "b \<in> set ys" for b
    proof -
      from Cons.prems(3) that have "\<not> jlt (key y) (key b)" by simp
      with False show ?thesis
        using nn(1) Cons.prems(2) that by (intro not_jlt_trans [of "key x" "key y" "key b"]) simp_all
    qed
    with False g Cons.prems(3) show ?thesis by simp
  qed
qed

lemma sorted_sort_cmp:
  assumes cmp: "\<And>a b. a \<in> set xs \<Longrightarrow> b \<in> set xs \<Longrightarrow>
                  jgt (c a b) (Fin 0) = jlt (key a) (key b)"
      and nn: "\<forall>a \<in> set xs. key a \<noteq> NaN"
  shows "sorted_wrt (\<lambda>a b. \<not> jlt (key a) (key b)) (sort_cmp c xs)"
  using assms
proof (induction xs)
  case Nil
  show ?case by (simp add: sort_cmp_def)
next
  case (Cons x xs)
  have rest: "sorted_wrt (\<lambda>a b. \<not> jlt (key a) (key b)) (sort_cmp c xs)"
    using Cons.prems by (intro Cons.IH) simp_all
  have "sorted_wrt (\<lambda>a b. \<not> jlt (key a) (key b)) (insort_cmp c x (sort_cmp c xs))"
    using Cons.prems rest by (intro sorted_insort_cmp) (simp_all add: set_sort_cmp)
  then show ?case by (simp add: sort_cmp_def)
qed

section \<open>The stages in closed form\<close>

lemma filter_st_pure:
  assumes "\<And>x s. f x s = (if P x then (False, g s) else (True, s))"
  shows "filter_st f xs s = (filter (\<lambda>x. \<not> P x) xs, (g ^^ length (filter P xs)) s)"
proof (induction xs arbitrary: s)
  case Nil
  show ?case by simp
next
  case (Cons x xs)
  show ?case using assms [of x s] by (simp add: Cons.IH funpow_swap1)
qed

lemma map_st_pure:
  assumes "\<And>x s. f x s = (if P x then (h x, g s) else (x, s))"
  shows "map_st f xs s = (map (\<lambda>x. if P x then h x else x) xs, (g ^^ length (filter P xs)) s)"
proof (induction xs arbitrary: s)
  case Nil
  show ?case by simp
next
  case (Cons x xs)
  show ?case using assms [of x s] by (simp add: Cons.IH funpow_swap1)
qed

lemma bump_missing: "((\<lambda>lg. lg\<lparr>missingValuesHandled := Suc (missingValuesHandled lg)\<rparr>) ^^ n) lg
   = lg\<lparr>missingValuesHandled := missingValuesHandled lg + n\<rparr>"
  by (induction n) simp_all

lemma bump_negative: "((\<lambda>lg. lg\<lparr>negativeValuesFixed := Suc (negativeValuesFixed lg)\<rparr>) ^^ n) lg
   = lg\<lparr>negativeValuesFixed := negativeValuesFixed lg + n\<rparr>"
  by (induction n) simp_all

lemma bump_outliers: "((\<lambda>lg. lg\<lparr>outliersRemoved := Suc (outliersRemoved lg)\<rparr>) ^^ n) lg
   = lg\<lparr>outliersRemoved := outliersRemoved lg + n\<rparr>"
  by (induction n) simp_all

lemma missing_stage_eq:
  "missing_stage rows lg =
     (filter (\<lambda>r. \<not> is_missing r) rows,
      lg\<lparr>missingValuesHandled := missingValuesHandled lg + length (filter is_missing rows)\<rparr>)"
  unfolding missing_stage_def
  by (subst filter_st_pure [where P = is_missing
        and g = "\<lambda>lg. lg\<lparr>missingValuesHandled := missingValuesHandled lg + 1\<rparr>"])
     (simp_all add: missing_cb_def is_missing_def bump_missing)

lemma negative_stage_eq:
  "negative_stage rows lg =
     (map (\<lambda>r. if is_negative r then r\<lparr>quantity := \<bar>quantity r\<bar>, revenue := fabs (revenue r)\<rparr> else r) rows,
      lg\<lparr>negativeValuesFixed := negativeValuesFixed lg + length (filter is_negative rows)\<rparr>)"
  unfolding negative_stage_def
  by (subst map_st_pure [where P = is_negative
        and h = "\<lambda>r. r\<lparr>quantity := \<bar>quantity r\<bar>, revenue := fabs (revenue r)\<rparr>"
        and g = "\<lambda>lg. lg\<lparr>negativeValuesFixed := negativeValuesFixed lg + 1\<rparr>"])
     (simp_all add: negative_cb_def is_negative_def bump_negative)

lemma outlier_filter_eq:
  "filter_st (outlier_cb a) rows lg =
     (filter (\<lambda>r. \<not> is_outlier a r) rows,
      lg\<lparr>outliersRemoved := outliersRemoved lg + length (filter (is_outlier a) rows)\<rparr>)"
  by (subst filter_st_pure [where P = "is_outlier a"
        and g = "\<lambda>lg. lg\<lparr>outliersRemoved := outliersRemoved lg + 1\<rparr>"])
     (simp_all add: outlier_cb_def is_outlier_def bump_outliers)

lemma seen_before_Cons_Suc:
  "seen_before S (x # xs) (Suc i) = seen_before (insert (transaction_id x) S) xs i"
  by (simp add: seen_before_def)

lemma seen_before_Cons_0: "seen_before S (x # xs) 0 = (transaction_id x \<in> S)"
  by (simp add: seen_before_def)

lemma duplicate_cb_apply:
  "duplicate_cb row (S, lg) =
     (if transaction_id row \<in> S
      then (False, (S, lg\<lparr>duplicatesRemoved := Suc (duplicatesRemoved lg)\<rparr>))
      else (True, (insert (transaction_id row) S, lg)))"
  by (simp add: duplicate_cb_def)

lemma seen_before_empty:
  "seen_before {} rows =
     (\<lambda>i. transaction_id (rows ! i) \<in> set (map transaction_id (take i rows)))"
  by (simp add: fun_eq_iff seen_before_def)

lemma upt_Suc_shift: "[0..<Suc n] = 0 # map Suc [0..<n]"
  by (simp add: upt_conv_Cons map_Suc_upt del: upt_Suc)

lemma dedup_filter_gen:
  "filter_st duplicate_cb rows (S, lg) =
     (map (\<lambda>i. rows ! i) (filter (\<lambda>i. \<not> seen_before S rows i) [0..<length rows]),
      (S \<union> set (map transaction_id rows),
       lg\<lparr>duplicatesRemoved :=
            duplicatesRemoved lg + length (filter (seen_before S rows) [0..<length rows])\<rparr>))"
proof (induction rows arbitrary: S lg)
  case Nil
  show ?case by simp
next
  case (Cons x xs)
  have len: "length (x # xs) = Suc (length xs)" by simp
  show ?case
  proof (cases "transaction_id x \<in> S")
    case True
    then have ins: "insert (transaction_id x) S = S" by auto
    from True show ?thesis
      unfolding len upt_Suc_shift
      by (simp add: duplicate_cb_apply Cons.IH filter_map comp_def
            seen_before_Cons_Suc seen_before_Cons_0 ins insert_absorb del: upt_Suc)
  next
    case False
    then show ?thesis
      unfolding len upt_Suc_shift
      by (simp add: duplicate_cb_apply Cons.IH filter_map comp_def
            seen_before_Cons_Suc seen_before_Cons_0 del: upt_Suc)
  qed
qed

lemma dedup_stage_eq:
  "dedup_stage rows lg =
     (first_occurrences rows,
      lg\<lparr>duplicatesRemoved := duplicatesRemoved lg + length (later_occurrences rows)\<rparr>)"
  by (simp add: dedup_stage_def dedup_filter_gen first_occurrences_def later_occurrences_def
        seen_before_empty)

lemma length_first_later:
  "length (first_occurrences rows) + length (later_occurrences rows) = length rows"
  using sum_length_filter_compl [of "\<lambda>i. transaction_id (rows ! i) \<notin> set (map transaction_id (take i rows))" "[0..<length rows]"]
  by (simp add: first_occurrences_def later_occurrences_def)

lemma working_set_eq:
  "working_set rawData =
     map normalise (filter (\<lambda>r. \<not> is_missing r) (first_occurrences rawData))"
  by (simp add: working_set_def dedup_stage_eq missing_stage_eq negative_stage_eq normalise_def
        cong: map_cong)

lemma negative_stage_norm:
  "negative_stage rows lg =
     (map normalise rows,
      lg\<lparr>negativeValuesFixed := negativeValuesFixed lg + length (filter is_negative rows)\<rparr>)"
  by (simp add: negative_stage_eq normalise_def)

lemma outlier_stage_eq:
  "outlier_stage rows lg =
     (filter (\<lambda>r. \<not> is_outlier (avgRevenue rows) r) rows,
      lg\<lparr>outliersRemoved :=
           outliersRemoved lg + length (filter (is_outlier (avgRevenue rows)) rows)\<rparr>)"
  unfolding outlier_stage_def by (rule outlier_filter_eq)

lemma performETL_eq:
  "performETL e rawData =
     \<lparr>cleanedData =
        map (enrich e)
          (filter (\<lambda>r. \<not> is_outlier (avgRevenue (working_set rawData)) r) (working_set rawData)),
      etlLog =
        \<lparr>totalRecords = length rawData,
         duplicatesRemoved = length (later_occurrences rawData),
         missingValuesHandled = length (filter is_missing (first_occurrences rawData)),
         negativeValuesFixed =
           length (filter is_negative
                     (filter (\<lambda>r. \<not> is_missing r) (first_occurrences rawData))),
         outliersRemoved =
           length (filter (is_outlier (avgRevenue (working_set rawData))) (working_set rawData)),
         recordsAfterCleaning =
           length (filter (\<lambda>r. \<not> is_outlier (avgRevenue (working_set rawData)) r)
                     (working_set rawData))\<rparr>\<rparr>"
  by (simp add: performETL_def working_set_eq dedup_stage_eq missing_stage_eq
        negative_stage_norm outlier_stage_eq)

lemma dedup_distinct_gen:
  "distinct (map transaction_id (fst (filter_st duplicate_cb rows (S, lg)))) \<and>
   set (map transaction_id (fst (filter_st duplicate_cb rows (S, lg))))
     = set (map transaction_id rows) - S"
proof (induction rows arbitrary: S lg)
  case Nil
  show ?case by simp
next
  case (Cons x xs)
  show ?case
  proof (cases "transaction_id x \<in> S")
    case True
    with Cons.IH [of S "lg\<lparr>duplicatesRemoved := Suc (duplicatesRemoved lg)\<rparr>"]
    show ?thesis by (auto simp: duplicate_cb_apply split: prod.splits)
  next
    case False
    with Cons.IH [of "insert (transaction_id x) S" lg]
    show ?thesis by (auto simp: duplicate_cb_apply split: prod.splits)
  qed
qed

lemma first_occurrences_distinct: "distinct (map transaction_id (first_occurrences rows))"
  using dedup_distinct_gen [of rows "{}"]
  by (simp add: dedup_filter_gen first_occurrences_def seen_before_empty)

lemma first_occurrences_ids:
  "set (map transaction_id (first_occurrences rows)) = set (map transaction_id rows)"
  using dedup_distinct_gen [of rows "{}"]
  by (simp add: dedup_filter_gen first_occurrences_def seen_before_empty)

lemma enrich_fields:
  "transaction_id (enrich e r) = transaction_id r"
  "category (enrich e r) = category r"
  "customer_segment (enrich e r) = customer_segment r"
  "quantity (enrich e r) = quantity r"
  "revenue (enrich e r) = revenue r"
  "profit (enrich e r) = profit r"
  "cost (enrich e r) = cost r"
  "region (enrich e r) = region r"
  by (simp_all add: enrich_def transaction.defs cleaned.defs)

lemma jlt_num_zero: "jlt (num x) (Fin 0) \<longleftrightarrow> fval x < 0"
  by (cases x) (simp_all add: jlt_def)

lemma fval_fabs: "fval (fabs x) = \<bar>fval x\<bar>"
  by (cases x) simp_all

lemma normalise_fields:
  "transaction_id (normalise r) = transaction_id r"
  "category (normalise r) = category r"
  "customer_segment (normalise r) = customer_segment r"
  "0 \<le> quantity (normalise r)"
  "\<not> jlt (num (revenue (normalise r))) (Fin 0)"
  by (auto simp: normalise_def is_negative_def jlt_num_zero fval_fabs)

lemma working_set_distinct: "distinct (map transaction_id (working_set rawData))"
proof -
  have "map transaction_id (working_set rawData)
          = map transaction_id (filter (\<lambda>r. \<not> is_missing r) (first_occurrences rawData))"
    by (simp add: working_set_eq normalise_fields comp_def)
  then show ?thesis
    by (simp add: distinct_map_filter first_occurrences_distinct)
qed

lemma working_set_props:
  assumes "r \<in> set (working_set rawData)"
  shows "category r \<noteq> [] \<and> customer_segment r \<noteq> [] \<and> 0 \<le> quantity r \<and>
         \<not> jlt (num (revenue r)) (Fin 0)"
  using assms by (auto simp: working_set_eq normalise_fields is_missing_def)

lemma length_later_occurrences:
  "length (later_occurrences rows) = length rows - length (first_occurrences rows)"
  using length_first_later [of rows] by arith

section \<open>The aggregations in closed form\<close>

lemma map_of_obj_modify:
  "map_of (obj_modify k upd g) k' =
     (if k' = k then map_option upd (map_of g k') else map_of g k')"
  by (induction g) (auto simp: obj_modify_def)

lemma map_of_obj_accumulate:
  "map_of (obj_accumulate k init upd g) k' =
     (if k' \<noteq> k then map_of g k'
      else (case map_of g k of
              Some v \<Rightarrow> Some (upd v)
            | None \<Rightarrow> if k \<in> set object_prototype_keys then None else Some (upd init)))"
  by (auto simp: obj_accumulate_def map_of_obj_modify map_add_def split: option.splits)

lemma running_sum_Nil: "running_sum f [] = Fin 0"
  by (simp add: running_sum_def)

lemma running_sum_Cons:
  "running_sum f (r # rows) =
     foldl (\<lambda>sum row. jadd sum (num (f row))) (jadd (Fin 0) (num (f r))) rows"
  by (simp add: running_sum_def)

lemma map_of_month_step:
  "map_of (month_step g row) m =
     (if m \<noteq> month row then map_of g m
      else (case map_of g m of
              Some v \<Rightarrow> Some (v\<lparr>mr_revenue := jadd (mr_revenue v) (num (revenue row)),
                                 mr_profit := jadd (mr_profit v) (num (profit row))\<rparr>)
            | None \<Rightarrow>
                if m \<in> set object_prototype_keys then None
                else Some \<lparr>mr_month = m,
                           mr_revenue = jadd (Fin 0) (num (revenue row)),
                           mr_profit = jadd (Fin 0) (num (profit row))\<rparr>))"
  by (auto simp: month_step_def map_of_obj_accumulate split: option.splits)

lemma map_of_month_fold:
  assumes "m \<notin> set object_prototype_keys"
  shows "map_of (foldl month_step g rows) m =
     (case map_of g m of
        Some v \<Rightarrow>
          Some (v\<lparr>mr_revenue := foldl (\<lambda>sum row. jadd sum (num (revenue row))) (mr_revenue v)
                                  (filter (\<lambda>r. month r = m) rows),
                  mr_profit := foldl (\<lambda>sum row. jadd sum (num (profit row))) (mr_profit v)
                                  (filter (\<lambda>r. month r = m) rows)\<rparr>)
      | None \<Rightarrow>
          if \<forall>r \<in> set rows. month r \<noteq> m then None else Some (month_sums m rows))"
proof (induction rows arbitrary: g)
  case Nil
  show ?case by (simp split: option.splits)
next
  case (Cons r rows)
  show ?case
    using assms
    by (simp add: Cons.IH map_of_month_step month_sums_def running_sum_Cons
          split: option.splits)
qed

lemma monthOrder_not_inherited: "m \<in> set monthOrder \<Longrightarrow> m \<notin> set object_prototype_keys"
  by (auto simp: monthOrder_def object_prototype_keys_def)

lemma month_sums_none:
  "\<forall>r \<in> set rows. month r \<noteq> m \<Longrightarrow>
   month_sums m rows = \<lparr>mr_month = m, mr_revenue = Fin 0, mr_profit = Fin 0\<rparr>"
proof -
  assume "\<forall>r \<in> set rows. month r \<noteq> m"
  then have "filter (\<lambda>r. month r = m) rows = []" by (simp add: filter_empty_conv)
  then show ?thesis by (simp add: month_sums_def running_sum_Nil)
qed

lemma monthlyTrend_eq: "monthlyTrend rows = map (\<lambda>m. month_sums m rows) monthOrder"
  unfolding monthlyTrend_def Let_def
proof (rule map_cong [OF refl])
  fix m assume "m \<in> set monthOrder"
  then have ni: "m \<notin> set object_prototype_keys" by (rule monthOrder_not_inherited)
  show "(case map_of (foldl month_step [] rows) m of
           Some g \<Rightarrow> g
         | None \<Rightarrow> \<lparr>mr_month = m, mr_revenue = Fin 0, mr_profit = Fin 0\<rparr>)
        = month_sums m rows"
    by (simp add: map_of_month_fold [OF ni] month_sums_none)
qed

lemma map_of_category_step:
  "map_of (category_step g row) c =
     (if c \<noteq> category row then map_of g c
      else (case map_of g c of
              Some v \<Rightarrow> Some (v\<lparr>cr_revenue := jadd (cr_revenue v) (num (revenue row)),
                                 cr_profit := jadd (cr_profit v) (num (profit row)),
                                 cr_transactions := Suc (cr_transactions v)\<rparr>)
            | None \<Rightarrow>
                if c \<in> set object_prototype_keys then None
                else Some \<lparr>cr_category = c,
                           cr_revenue = jadd (Fin 0) (num (revenue row)),
                           cr_profit = jadd (Fin 0) (num (profit row)),
                           cr_transactions = Suc 0\<rparr>))"
  by (auto simp: category_step_def map_of_obj_accumulate split: option.splits)

lemma map_of_category_fold:
  assumes "c \<notin> set object_prototype_keys"
  shows "map_of (foldl category_step g rows) c =
     (case map_of g c of
        Some v \<Rightarrow>
          Some (v\<lparr>cr_revenue := foldl (\<lambda>sum row. jadd sum (num (revenue row))) (cr_revenue v)
                                  (filter (\<lambda>r. category r = c) rows),
                  cr_profit := foldl (\<lambda>sum row. jadd sum (num (profit row))) (cr_profit v)
                                  (filter (\<lambda>r. category r = c) rows),
                  cr_transactions :=
                    cr_transactions v + length (filter (\<lambda>r. category r = c) rows)\<rparr>)
      | None \<Rightarrow>
          if \<forall>r \<in> set rows. category r \<noteq> c then None else Some (category_sums c rows))"
proof (induction rows arbitrary: g)
  case Nil
  show ?case by (simp split: option.splits)
next
  case (Cons r rows)
  show ?case
    using assms
    by (simp add: Cons.IH map_of_category_step category_sums_def running_sum_Cons
          split: option.splits)
qed

lemma fst_obj_modify: "map fst (obj_modify k upd g) = map fst g"
  by (induction g) (auto simp: obj_modify_def)

lemma keys_obj_modify: "fst ` set (obj_modify k upd g) = fst ` set g"
  using arg_cong [OF fst_obj_modify [of k upd g], of set] by simp

lemma obj_accumulate_ok: "own_keys_ok g \<Longrightarrow> own_keys_ok (obj_accumulate k init upd g)"
proof (cases "map_of g k")
  case None
  assume ok: "own_keys_ok g"
  from None have e: "obj_accumulate k init upd g =
      (if k \<in> set object_prototype_keys then g else g @ [(k, upd init)])"
    by (simp add: obj_accumulate_def)
  from None have nk: "k \<notin> fst ` set g" by (simp add: map_of_eq_None_iff)
  from ok nk show ?thesis
    unfolding e by (auto simp: own_keys_ok_def)
next
  case (Some v)
  assume "own_keys_ok g"
  with Some show ?thesis
    by (simp add: own_keys_ok_def obj_accumulate_def fst_obj_modify keys_obj_modify)
qed

lemma category_step_ok: "own_keys_ok g \<Longrightarrow> own_keys_ok (category_step g row)"
  by (simp add: category_step_def obj_accumulate_ok)

lemma category_fold_ok: "own_keys_ok g \<Longrightarrow> own_keys_ok (foldl category_step g rows)"
  by (induction rows arbitrary: g) (simp_all add: category_step_ok)

lemma set_object_values: "set (object_values g) = snd ` set g"
proof -
  have "set (object_values g)
          = snd ` ({kv \<in> set g. case kv of (k, v) \<Rightarrow> array_index k \<noteq> None}
                   \<union> {kv \<in> set g. case kv of (k, v) \<Rightarrow> array_index k = None})"
    by (simp add: object_values_def image_Un)
  also have "{kv \<in> set g. case kv of (k, v) \<Rightarrow> array_index k \<noteq> None}
               \<union> {kv \<in> set g. case kv of (k, v) \<Rightarrow> array_index k = None} = set g"
    by auto
  finally show ?thesis .
qed

lemma length_object_values: "length (object_values g) = length g"
proof -
  have c: "(\<lambda>(k, v). array_index k = None)
             = (\<lambda>kv. \<not> (case kv of (k, v) \<Rightarrow> array_index k \<noteq> None))"
    by (simp add: fun_eq_iff split_def)
  show ?thesis
    unfolding object_values_def c
    using sum_length_filter_compl [of "\<lambda>(k, v). array_index k \<noteq> None" g]
    by simp
qed

lemma set_category_fold:
  "snd ` set (foldl category_step [] rows)
     = (\<lambda>c. category_sums c rows) ` (category ` set rows - set object_prototype_keys)"
proof -
  let ?g = "foldl category_step [] rows"
  have ok: "own_keys_ok ?g"
    by (rule category_fold_ok) (simp add: own_keys_ok_def)
  then have d: "distinct (map fst ?g)" by (simp add: own_keys_ok_def)
  have mem: "(k, v) \<in> set ?g \<longleftrightarrow>
               k \<in> category ` set rows - set object_prototype_keys \<and> v = category_sums k rows"
    for k v
  proof (cases "k \<in> set object_prototype_keys")
    case True
    with ok have "k \<notin> fst ` set ?g" by (auto simp: own_keys_ok_def)
    with True show ?thesis by force
  next
    case False
    have "(k, v) \<in> set ?g \<longleftrightarrow> map_of ?g k = Some v"
      using d by simp
    with False show ?thesis
      by (auto simp: map_of_category_fold)
  qed
  show ?thesis
  proof (rule set_eqI)
    fix v
    show "v \<in> snd ` set ?g \<longleftrightarrow>
          v \<in> (\<lambda>c. category_sums c rows) ` (category ` set rows - set object_prototype_keys)"
    proof
      assume "v \<in> snd ` set ?g"
      then obtain k where "(k, v) \<in> set ?g" by force
      with mem [of k v] show
        "v \<in> (\<lambda>c. category_sums c rows) ` (category ` set rows - set object_prototype_keys)"
        by blast
    next
      assume "v \<in> (\<lambda>c. category_sums c rows) ` (category ` set rows - set object_prototype_keys)"
      then obtain k where "k \<in> category ` set rows - set object_prototype_keys"
        and "v = category_sums k rows" by blast
      with mem [of k v] have "(k, v) \<in> set ?g" by blast
      then show "v \<in> snd ` set ?g" by force
    qed
  qed
qed

lemma set_categoryData:
  "set (categoryData rows)
     = (\<lambda>c. category_sums c rows) ` (category ` set rows - set object_prototype_keys)"
  by (simp add: categoryData_def set_sort_cmp set_object_values set_category_fold)

lemma category_fold_entry:
  assumes "(k, v) \<in> set (foldl category_step [] rows)"
  shows "k \<in> category ` set rows - set object_prototype_keys \<and> v = category_sums k rows"
proof -
  let ?g = "foldl category_step [] rows"
  have ok: "own_keys_ok ?g"
    by (rule category_fold_ok) (simp add: own_keys_ok_def)
  from ok assms have ni: "k \<notin> set object_prototype_keys"
    by (force simp: own_keys_ok_def)
  from ok have "distinct (map fst ?g)" by (simp add: own_keys_ok_def)
  with assms have "map_of ?g k = Some v" by simp
  with ni show ?thesis
    by (auto simp: map_of_category_fold split: if_splits)
qed

lemma category_keys_distinct: "distinct (map cr_category (categoryData rows))"
proof -
  let ?g = "foldl category_step [] rows"
  have ok: "own_keys_ok ?g"
    by (rule category_fold_ok) (simp add: own_keys_ok_def)
  then have d: "distinct (map fst ?g)" by (simp add: own_keys_ok_def)
  have "cr_category (snd kv) = fst kv" if "kv \<in> set ?g" for kv
    using category_fold_entry [of "fst kv" "snd kv" rows] that
    by (simp add: category_sums_def)
  then have "(\<lambda>kv. cr_category (snd kv)) ` set ?g = fst ` set ?g"
    by (intro image_cong refl)
  then have "set (map cr_category (categoryData rows)) = set (map fst ?g)"
    by (simp add: categoryData_def set_sort_cmp set_object_values image_image)
  then have "card (set (map cr_category (categoryData rows))) = length ?g"
    using distinct_card [OF d] by simp
  also have "\<dots> = length (map cr_category (categoryData rows))"
    by (simp add: categoryData_def length_sort_cmp length_object_values)
  finally show ?thesis by (rule card_distinct)
qed

lemma is_finite_num: "is_finite (num x)"
  by (cases x) simp_all

lemma dval_jadd_num: "dval a \<Longrightarrow> dval (jadd a (num x))"
  using dval_fl [of "mag a + mag (num x)"]
  by (cases a; cases x) (simp_all add: jadd_def dval_def)

lemma dval_fold: "dval a \<Longrightarrow> dval (foldl (\<lambda>sum row. jadd sum (num (f row))) a rows)"
  by (induction rows arbitrary: a) (simp_all add: dval_jadd_num)

lemma dval_running_sum: "dval (running_sum f rows)"
  unfolding running_sum_def by (rule dval_fold) (simp add: dval_def on_grid_0)

lemma dval_not_nan: "dval x \<Longrightarrow> x \<noteq> NaN"
  by (auto simp: dval_def)

lemma categoryData_sorted:
  "sorted_wrt (\<lambda>a b. \<not> jlt (cr_revenue a) (cr_revenue b)) (categoryData rows)"
  unfolding categoryData_def
proof (rule sorted_sort_cmp)
  let ?xs = "object_values (foldl category_step [] rows)"
  have dv: "dval (cr_revenue a)" if "a \<in> set ?xs" for a
    using that
    by (auto simp: set_object_values set_category_fold category_sums_def dval_running_sum)
  show "jgt (jsub (cr_revenue b) (cr_revenue a)) (Fin 0) = jlt (cr_revenue a) (cr_revenue b)"
    if "a \<in> set ?xs" "b \<in> set ?xs" for a b
    using that by (intro comparator_sign dv)
  show "\<forall>a \<in> set ?xs. cr_revenue a \<noteq> NaN"
    using dv by (auto dest: dval_not_nan)
qed

lemma revenue_total_running: "revenue_total rows = running_sum revenue rows"
  by (simp add: revenue_total_def running_sum_def)

lemma profit_total_running: "profit_total rows = running_sum profit rows"
  by (simp add: profit_total_def running_sum_def)

section \<open>Evaluation on the concrete inputs\<close>

lemma fl_cert:
  assumes "2 powi e \<le> \<bar>x\<bar>" and "\<bar>x\<bar> < 2 powi (e + 1)" and "- 1022 \<le> e" and "e \<le> 1022"
    and "\<bar>\<bar>x\<bar> / 2 powi (e - 52) - of_int n\<bar> < 1 / 2"
  shows "fl x = Fin (if 0 < x then of_int n * 2 powi (e - 52) else - (of_int n * 2 powi (e - 52)))"
  using assms(1-4) by (rule fl_normal) (rule round_even_near [OF assms(5)])

lemma fl_numeral: "numeral n < (2::int) ^ 53 \<Longrightarrow> fl (numeral n) = Fin (numeral n)"
  using fl_int [of "numeral n"] by simp

lemma fl_neg_numeral:
  "numeral n < (2::int) ^ 53 \<Longrightarrow> fl (- numeral n) = Fin (- numeral n)"
  using fl_int [of "- numeral n"] by simp

lemma fl_1: "fl 1 = Fin 1"
  using fl_int [of 1] by simp

lemma fl_0: "fl 0 = Fin 0"
  by (simp add: fl_def)

lemmas fl_simps = fl_0 fl_1 fl_numeral fl_neg_numeral

lemmas arith_defs = jadd_def jsub_def jmul_def jdiv_def jlt_def jgt_def is_zero_def
  inf_of_def zero_of_def

lemma t1: "jadd (Fin 200) (Fin 60) = Fin 260"
  by (simp add: arith_defs fl_simps)

lemma t2: "jdiv (Fin 56) (Fin 7) = Fin 8"
  by (simp add: arith_defs fl_simps)

lemma fl_quarter: "fl (1 / 4) = Fin (1 / 4)"
  using fl_dyadic [of 1 "- 2"] by simp

lemma t3: "jmul (jdiv (Fin 50) (Fin 200)) (Fin 100) = Fin 25"
  by (simp add: arith_defs fl_simps fl_quarter)

lemma near_avg: "fl ((30 + 1 / 2 ^ 48) / 6) = Fin (5 + 1 / 2 ^ 50)"
  using fl_cert [of 2 "(30 + 1 / 2 ^ 48) / 6" "5 * 2 ^ 50 + 1"] by simp

lemma near_threshold: "fl ((5 + 1 / 2 ^ 50) * 5) = Fin (25 + 1 / 2 ^ 48)"
  using fl_cert [of 4 "(5 + 1 / 2 ^ 50) * 5" "25 * 2 ^ 48 + 1"] by simp

lemma near_sum: "fl (5 + (25 + 1 / 2 ^ 48)) = Fin (30 + 1 / 2 ^ 48)"
  using fl_dyadic [of "30 * 2 ^ 48 + 1" "- 48"] by simp

lemmas eval_defs =
  scenario_raw_def outlier_raw_def zero_revenue_raw_def april_first_raw_def negative_row_def
  tie_raw_def near_raw_def near_double_raw_def large_raw_def
  sample_row_def env_utc_def env_new_york_def
  first_occurrences_def later_occurrences_def is_missing_def normalise_def is_negative_def
  jlt_num_zero

lemma nat_digits_small: "n < 10 \<Longrightarrow> nat_digits n = [digit_char n]"
  by (simp add: nat_digits.simps)

lemma nat_digits_large:
  "10 \<le> n \<Longrightarrow> nat_digits n = nat_digits (n div 10) @ [digit_char n]"
  by (subst nat_digits.simps) simp

lemmas render_simps = toFixed_def Let_def nat_digits_small nat_digits_large digit_char_def

lemma scenario_first:
  "first_occurrences scenario_raw = [scenario_raw ! 0, scenario_raw ! 2, scenario_raw ! 3]"
  by (simp add: eval_defs)

lemma scenario_working_set:
  "working_set scenario_raw =
     [scenario_raw ! 0, (scenario_raw ! 3)\<lparr>quantity := 3, revenue := F 60\<rparr>]"
  by (simp add: working_set_eq eval_defs)

lemma scenario_avg: "avgRevenue (working_set scenario_raw) = Fin 130"
  unfolding scenario_working_set
  by (simp add: avgRevenue_def eval_defs arith_defs fl_simps)

lemma scenario_cleaned_eq:
  "scenario_cleaned =
     [enrich env_utc (scenario_raw ! 0),
      enrich env_utc ((scenario_raw ! 3)\<lparr>quantity := 3, revenue := F 60\<rparr>)]"
  unfolding scenario_cleaned_def performETL_eq scenario_avg
  unfolding scenario_working_set
  by (simp add: eval_defs is_outlier_def arith_defs fl_simps)

lemma margin_25: "toFixed 2 (jmul (jdiv (Fin 50) (Fin 200)) (Fin 100)) = Str ''25.00''"
  by (simp add: arith_defs fl_simps fl_quarter render_simps)

lemma outlier_working_set: "working_set outlier_raw = outlier_raw"
  by (simp add: working_set_eq eval_defs)

lemma outlier_avg: "avgRevenue outlier_raw = Fin 8"
  by (simp add: avgRevenue_def eval_defs arith_defs fl_simps)

lemma near_value: "is_double (F (25 + 1 / 2 ^ 48))"
  using fl_dyadic [of "25 * 2 ^ 48 + 1" "- 48"] by (simp add: is_double_def)

lemma near_double_value: "is_double (F (50 + 1 / 2 ^ 47))"
  using fl_dyadic [of "50 * 2 ^ 47 + 1" "- 47"] by (simp add: is_double_def)

lemma near_working_set: "working_set near_raw = near_raw"
  by (simp add: working_set_eq eval_defs)

lemma near_avg_eq: "avgRevenue near_raw = Fin (5 + 1 / 2 ^ 50)"
  using near_sum near_avg
  by (simp add: avgRevenue_def eval_defs arith_defs fl_simps)

lemma near_threshold_eq: "jmul (avgRevenue near_raw) (Fin 5) = Fin (25 + 1 / 2 ^ 48)"
  unfolding near_avg_eq using near_threshold by (simp add: arith_defs)

section \<open>Reading a rendered number back\<close>

lemma digit_table: "m < 10 \<Longrightarrow> digit_of (''0123456789'' ! m) = Some m"
  by (auto simp: less_Suc_eq eval_nat_numeral digit_of_def)

lemma digit_of_digit_char: "digit_of (digit_char n) = Some (n mod 10)"
  by (simp add: digit_char_def digit_table)

lemma digits_val_snoc:
  "digits_val (s @ [c]) = 10 * digits_val s + (case digit_of c of Some d \<Rightarrow> d | None \<Rightarrow> 0)"
  by (simp add: digits_val_def)

lemma digits_val_nat_digits: "digits_val (nat_digits n) = n"
proof (induction n rule: nat_digits.induct)
  case (1 n)
  show ?case
  proof (cases "n < 10")
    case True
    then show ?thesis
      using digits_val_snoc [of "[]" "digit_char n"]
      by (simp add: nat_digits_small digit_of_digit_char digits_val_def)
  next
    case False
    with 1 have "digits_val (nat_digits (n div 10)) = n div 10" by simp
    with False show ?thesis
      by (simp add: nat_digits_large digits_val_snoc digit_of_digit_char)
  qed
qed

lemma all_digits_nat_digits: "list_all (\<lambda>c. digit_of c \<noteq> None) (nat_digits n)"
proof (induction n rule: nat_digits.induct)
  case (1 n)
  show ?case
  proof (cases "n < 10")
    case True
    then show ?thesis by (simp add: nat_digits_small digit_of_digit_char)
  next
    case False
    with 1 show ?thesis by (simp add: nat_digits_large digit_of_digit_char)
  qed
qed

lemma nat_digits_nonempty: "nat_digits n \<noteq> []"
  by (subst nat_digits.simps) simp

lemma digits_val_append:
  "digits_val (xs @ ys) = digits_val xs * 10 ^ length ys + digits_val ys"
proof (induction ys rule: rev_induct)
  case Nil
  show ?case by (simp add: digits_val_def)
next
  case (snoc y ys)
  have "digits_val (xs @ ys @ [y]) = digits_val ((xs @ ys) @ [y])" by simp
  also have "\<dots> = 10 * digits_val (xs @ ys) + (case digit_of y of Some d \<Rightarrow> d | None \<Rightarrow> 0)"
    by (rule digits_val_snoc)
  finally show ?case
    by (simp add: snoc.IH digits_val_snoc algebra_simps)
qed

lemma digits_val_zeros: "digits_val (replicate k (CHR ''0'') @ s) = digits_val s"
proof -
  have z: "digit_of (CHR ''0'') = Some 0" by (simp add: digit_of_def)
  have "digits_val (replicate k (CHR ''0'')) = 0"
  proof (induction k)
    case 0
    show ?case by (simp add: digits_val_def)
  next
    case (Suc k)
    have "replicate (Suc k) (CHR ''0'') = replicate k (CHR ''0'') @ [CHR ''0'']"
      by (simp add: replicate_append_same)
    then show ?case by (simp only: digits_val_snoc Suc.IH z) simp
  qed
  then show ?thesis by (simp add: digits_val_append)
qed

lemma digit_not_punct:
  assumes "digit_of c \<noteq> None"
  shows "c \<noteq> CHR ''-''" and "c \<noteq> CHR ''.''"
  using assms by (auto simp: digit_of_def)

lemma takeWhile_digits:
  assumes "list_all (\<lambda>c. digit_of c \<noteq> None) ip"
  shows "takeWhile (\<lambda>c. c \<noteq> CHR ''.'') (ip @ CHR ''.'' # fp) = ip"
    and "takeWhile (\<lambda>c. c \<noteq> CHR ''.'') ip = ip"
  using assms by (induction ip) (auto simp: digit_not_punct)

lemma decimal_value_parts:
  assumes "t \<noteq> []" and "hd t \<noteq> CHR ''-''"
      and "takeWhile (\<lambda>c. c \<noteq> CHR ''.'') t = ip"
      and "drop (Suc (length ip)) t = fp"
      and "ip \<noteq> []" and "list_all (\<lambda>c. digit_of c \<noteq> None) (ip @ fp)"
  shows "decimal_value t
           = Some (real (digits_val ip) + real (digits_val fp) / 10 ^ length fp)"
    and "decimal_value (CHR ''-'' # t)
           = Some (- (real (digits_val ip) + real (digits_val fp) / 10 ^ length fp))"
proof -
  show "decimal_value t
           = Some (real (digits_val ip) + real (digits_val fp) / 10 ^ length fp)"
    unfolding decimal_value_def Let_def using assms by simp
  show "decimal_value (CHR ''-'' # t)
           = Some (- (real (digits_val ip) + real (digits_val fp) / 10 ^ length fp))"
    unfolding decimal_value_def Let_def using assms by simp
qed

lemma decimal_value_unsigned:
  assumes ip: "list_all (\<lambda>c. digit_of c \<noteq> None) ip" "ip \<noteq> []"
      and fp: "list_all (\<lambda>c. digit_of c \<noteq> None) fp"
      and t: "t = ip @ CHR ''.'' # fp \<or> (t = ip \<and> fp = [])"
  shows "decimal_value t
           = Some (real (digits_val ip) + real (digits_val fp) / 10 ^ length fp)"
    and "decimal_value (CHR ''-'' # t)
           = Some (- (real (digits_val ip) + real (digits_val fp) / 10 ^ length fp))"
proof -
  from ip have h: "hd ip \<noteq> CHR ''-''"
    by (cases ip) (simp_all add: digit_not_punct)
  from ip fp have al: "list_all (\<lambda>c. digit_of c \<noteq> None) (ip @ fp)" by simp
  have p: "t \<noteq> [] \<and> hd t \<noteq> CHR ''-'' \<and> takeWhile (\<lambda>c. c \<noteq> CHR ''.'') t = ip
           \<and> drop (Suc (length ip)) t = fp"
  proof (cases "t = ip @ CHR ''.'' # fp")
    case True
    with ip(2) h show ?thesis
      by (simp add: takeWhile_digits(1) [OF ip(1)])
  next
    case False
    with t have "t = ip \<and> fp = []" by blast
    with ip(2) h show ?thesis
      by (simp add: takeWhile_digits(2) [OF ip(1)])
  qed
  show "decimal_value t
           = Some (real (digits_val ip) + real (digits_val fp) / 10 ^ length fp)"
    using p ip(2) al by (intro decimal_value_parts(1)) simp_all
  show "decimal_value (CHR ''-'' # t)
           = Some (- (real (digits_val ip) + real (digits_val fp) / 10 ^ length fp))"
    using p ip(2) al by (intro decimal_value_parts(2)) simp_all
qed

lemma toFixed_fixed_digits:
  "\<bar>v\<bar> < 10 ^ 21 \<Longrightarrow>
   toFixed f (Fin v) =
     Str ((if v < 0 then ''-'' else []) @ fixed_digits f (nat \<lfloor>\<bar>v\<bar> * 10 ^ f + 1 / 2\<rfloor>))"
  by (simp add: toFixed_def fixed_digits_def Let_def)

lemma decimal_value_fixed_digits:
  "decimal_value (fixed_digits f n) = Some (real n / 10 ^ f)"
  "decimal_value (CHR ''-'' # fixed_digits f n) = Some (- (real n / 10 ^ f))"
proof -
  define mm where "mm = replicate (f + 1 - length (nat_digits n)) (CHR ''0'') @ nat_digits n"
  define ip where "ip = (if f = 0 then nat_digits n else take (length mm - f) mm)"
  define fp where "fp = (if f = 0 then [] else drop (length mm - f) mm)"
  have z0: "digit_of (CHR ''0'') \<noteq> None" by (simp add: digit_of_def)
  have mmd: "list_all (\<lambda>c. digit_of c \<noteq> None) mm"
    using all_digits_nat_digits [of n] z0
    by (auto simp: mm_def list_all_iff)
  have mmv: "digits_val mm = n"
    by (simp add: mm_def digits_val_zeros digits_val_nat_digits)
  have len: "f < length mm" by (simp add: mm_def)
  have ipd: "list_all (\<lambda>c. digit_of c \<noteq> None) ip"
    using mmd all_digits_nat_digits [of n]
    by (auto simp: ip_def list_all_iff dest: in_set_takeD)
  have ipn: "ip \<noteq> []"
    using len by (auto simp: ip_def nat_digits_nonempty)
  have fpd: "list_all (\<lambda>c. digit_of c \<noteq> None) fp"
    using mmd by (auto simp: fp_def list_all_iff dest: in_set_dropD)
  have fpl: "length fp = f" using len by (simp add: fp_def)
  have t: "fixed_digits f n = ip @ CHR ''.'' # fp \<or> (fixed_digits f n = ip \<and> fp = [])"
  proof (cases "f = 0")
    case True
    then show ?thesis by (simp add: fixed_digits_def ip_def fp_def)
  next
    case False
    then have "fixed_digits f n = take (length mm - f) mm @ CHR ''.'' # drop (length mm - f) mm"
      unfolding fixed_digits_def Let_def mm_def by simp
    with False show ?thesis by (simp add: ip_def fp_def)
  qed
  have "digits_val (ip @ fp) = n"
  proof (cases "f = 0")
    case True
    then show ?thesis by (simp add: ip_def fp_def digits_val_nat_digits)
  next
    case False
    then have "ip @ fp = mm" by (simp add: ip_def fp_def)
    then show ?thesis by (simp add: mmv)
  qed
  then have "digits_val ip * 10 ^ f + digits_val fp = n"
    by (simp add: digits_val_append fpl)
  then have "real (digits_val ip * 10 ^ f + digits_val fp) = real n"
    by (rule arg_cong)
  then have r: "real (digits_val ip) * 10 ^ f + real (digits_val fp) = real n"
    by simp
  have "real (digits_val ip) + real (digits_val fp) / 10 ^ f
          = (real (digits_val ip) * 10 ^ f + real (digits_val fp)) / 10 ^ f"
    by (simp add: add_divide_distrib)
  then have v: "real (digits_val ip) + real (digits_val fp) / 10 ^ length fp = real n / 10 ^ f"
    unfolding r fpl .
  show "decimal_value (fixed_digits f n) = Some (real n / 10 ^ f)"
    unfolding decimal_value_unsigned(1) [OF ipd ipn fpd t] v ..
  show "decimal_value (CHR ''-'' # fixed_digits f n) = Some (- (real n / 10 ^ f))"
    unfolding decimal_value_unsigned(2) [OF ipd ipn fpd t] v ..
qed

lemma toFixed_value:
  assumes "\<bar>v\<bar> < 10 ^ 21"
  shows "numstr_value (toFixed f (Fin v)) = Some (round_half_away f v)"
proof -
  let ?n = "nat \<lfloor>\<bar>v\<bar> * 10 ^ f + 1 / 2\<rfloor>"
  have nn: "real ?n = real_of_int \<lfloor>\<bar>v\<bar> * 10 ^ f + 1 / 2\<rfloor>" by simp
  show ?thesis
  proof (cases "v < 0")
    case True
    then have "toFixed f (Fin v) = Str (CHR ''-'' # fixed_digits f ?n)"
      by (simp add: toFixed_fixed_digits [OF assms])
    then have "numstr_value (toFixed f (Fin v)) = Some (- (real ?n / 10 ^ f))"
      by (simp only: numstr_value_def numstr.case decimal_value_fixed_digits)
    with True show ?thesis
      unfolding nn round_half_away_def by (simp add: sgn_real_def)
  next
    case False
    then have "toFixed f (Fin v) = Str (fixed_digits f ?n)"
      by (simp add: toFixed_fixed_digits [OF assms])
    then have e: "numstr_value (toFixed f (Fin v)) = Some (real ?n / 10 ^ f)"
      by (simp only: numstr_value_def numstr.case decimal_value_fixed_digits)
    show ?thesis
    proof (cases "v = 0")
      case True
      then show ?thesis unfolding e nn round_half_away_def by simp
    next
      case nz: False
      with False have "0 < v" by simp
      then show ?thesis unfolding e nn round_half_away_def by (simp add: sgn_real_def)
    qed
  qed
qed

lemma toFixed_neg_zero: "toFixed f NegZero = toFixed f (Fin 0)"
  by (simp add: toFixed_def)

section \<open>Roundings on the concrete inputs\<close>

lemma near_double_working_set: "working_set near_double_raw = near_double_raw"
  by (simp add: working_set_eq eval_defs)

lemma near_double_sum: "fl (10 + (50 + 1 / 2 ^ 47)) = Fin (60 + 1 / 2 ^ 47)"
  using fl_dyadic [of "60 * 2 ^ 47 + 1" "- 47"] by simp

lemma near_double_avg: "fl ((60 + 1 / 2 ^ 47) / 6) = Fin (10 + 1 / 2 ^ 49)"
  using fl_cert [of 3 "(60 + 1 / 2 ^ 47) / 6" "10 * 2 ^ 49 + 1"] by simp

lemma near_double_threshold: "fl ((10 + 1 / 2 ^ 49) * 5) = Fin (50 + 1 / 2 ^ 47)"
  using fl_cert [of 5 "(10 + 1 / 2 ^ 49) * 5" "50 * 2 ^ 47 + 1"] by simp

lemma near_double_avg_eq: "avgRevenue near_double_raw = Fin (10 + 1 / 2 ^ 49)"
  using near_double_sum near_double_avg
  by (simp add: avgRevenue_def eval_defs arith_defs fl_simps)

lemma near_double_threshold_eq:
  "jmul (avgRevenue near_double_raw) (Fin 5) = Fin (50 + 1 / 2 ^ 47)"
  unfolding near_double_avg_eq using near_double_threshold by (simp add: arith_defs)

lemma tie_quotient: "fl (23 / 160) = Fin (5179139571476070 / 2 ^ 55)"
  using fl_cert [of "- 3" "23 / 160" 5179139571476070] by simp

lemma tie_product:
  "fl (5179139571476070 / 2 ^ 55 * 100) = Fin (8092405580431359 / 2 ^ 49)"
  using fl_cert [of 3 "5179139571476070 / 2 ^ 55 * 100" 8092405580431359] by simp

lemma tie_percentage: "percentage (F 23) (F 160) = Fin (8092405580431359 / 2 ^ 49)"
  using tie_quotient tie_product by (simp add: percentage_def arith_defs)

lemma tie_margin: "toFixed 2 (percentage (F 23) (F 160)) = Str ''14.37''"
  unfolding tie_percentage by (simp add: render_simps)

lemma tie_spec: "profit_margin_spec 23 160 = Some (Str ''14.38'')"
  by (simp add: profit_margin_spec_def render_simps)

lemma large_add: "fl (10 ^ 16 + 1) = Fin (10 ^ 16)"
proof -
  have "round_even (\<bar>10 ^ 16 + 1\<bar> / 2 powi (53 - 52)) = 5 * 10 ^ 15"
    by (rule round_even_tie_down) simp_all
  from fl_normal [of 53 "10 ^ 16 + 1", OF _ _ _ _ this] show ?thesis by simp
qed

lemma large_avg: "fl (10 ^ 16 / 3) = Fin (6666666666666667 / 2)"
  using fl_cert [of 51 "10 ^ 16 / 3" 6666666666666667] by simp

lemma large_threshold: "fl (6666666666666667 / 2 * 5) = Fin 16666666666666668"
  using fl_cert [of 53 "6666666666666667 / 2 * 5" 8333333333333334] by simp

lemma large_fl: "fl (10 ^ 16) = Fin (10 ^ 16)"
  using fl_dyadic [of "5 ^ 16" 16] by simp

lemma large_value: "is_double (F (10 ^ 16))"
  using large_fl by (simp add: is_double_def)

lemma large_working_set: "working_set large_raw = large_raw"
  by (simp add: working_set_eq eval_defs)

lemma large_avg_eq: "avgRevenue large_raw = Fin (6666666666666667 / 2)"
  using large_add large_avg large_fl
  by (simp add: avgRevenue_def eval_defs arith_defs fl_simps)

lemma large_threshold_eq: "jmul (avgRevenue large_raw) (Fin 5) = Fin 16666666666666668"
  unfolding large_avg_eq using large_threshold by (simp add: arith_defs)

lemma large_cleaned_eq: "large_cleaned = map (enrich env_utc) large_raw"
  unfolding large_cleaned_def performETL_eq large_working_set is_outlier_def
    large_threshold_eq
  by (simp add: eval_defs arith_defs)

section \<open>Thresholds and percentages\<close>

lemma jdiv_count_not_nan:
  assumes "x \<noteq> NaN" and "0 < n"
  shows "jdiv x (Fin (real n)) \<noteq> NaN"
  using assms fl_not_nan [of "mag x / real n"]
  by (cases x) (simp_all add: jdiv_def inf_of_def zero_of_def)

lemma jmul_5_not_nan: "x \<noteq> NaN \<Longrightarrow> jmul x (Fin 5) \<noteq> NaN"
  using fl_not_nan [of "mag x * 5"]
  by (cases x) (simp_all add: jmul_def inf_of_def zero_of_def is_zero_def)

lemma avgRevenue_running:
  "avgRevenue rows = jdiv (running_sum revenue rows) (Fin (real (length rows)))"
  by (simp add: avgRevenue_def running_sum_def)

lemma threshold_not_nan:
  assumes "rows \<noteq> []"
  shows "jmul (avgRevenue rows) (Fin 5) \<noteq> NaN"
proof -
  have "running_sum revenue rows \<noteq> NaN"
    by (rule dval_not_nan) (rule dval_running_sum)
  moreover from assms have "0 < length rows" by simp
  ultimately have "avgRevenue rows \<noteq> NaN"
    unfolding avgRevenue_running by (rule jdiv_count_not_nan)
  then show ?thesis by (rule jmul_5_not_nan)
qed

lemma num_not_nan: "num x \<noteq> NaN"
  by (cases x) simp_all

lemma kept_within_threshold:
  assumes "r \<in> set rows" and "\<not> is_outlier (avgRevenue rows) r"
  shows "jle (num (revenue r)) (jmul (avgRevenue rows) (Fin 5))"
proof -
  from assms(1) have "rows \<noteq> []" by auto
  then have "jmul (avgRevenue rows) (Fin 5) \<noteq> NaN" by (rule threshold_not_nan)
  with assms(2) show ?thesis
    by (simp add: jle_def is_outlier_def jgt_def num_not_nan)
qed

lemma percentage_zero_revenue:
  assumes "fval r = 0"
  shows "toFixed 2 (percentage p r) =
           (if fval p = 0 then Str ''NaN''
            else if (fval p < 0) = (r = NZ) then Str ''Infinity''
            else Str ''-Infinity'')"
  using assms
  by (cases p; cases r)
     (simp_all add: percentage_def jdiv_def jmul_def inf_of_def zero_of_def is_zero_def
        toFixed_def)

lemma toFixed_finite_value:
  assumes "is_finite x" and "\<bar>mag x\<bar> < 10 ^ 21"
  shows "numstr_value (toFixed f x) = Some (round_half_away f (mag x))"
proof (cases x)
  case (Fin v)
  with assms(2) show ?thesis by (simp add: toFixed_value)
next
  case NegZero
  then show ?thesis
    using toFixed_value [of 0 f] by (simp add: toFixed_neg_zero)
qed (use assms(1) in simp_all)

lemma profit_margin_enrich:
  "profit_margin (enrich e r) = toFixed 2 (percentage (profit r) (revenue r))"
  by (simp add: enrich_def percentage_def transaction.defs cleaned.defs)

lemma cleaned_member:
  assumes "r \<in> set (cleanedData (performETL e rawData))"
  obtains w where "w \<in> set (working_set rawData)"
    and "\<not> is_outlier (avgRevenue (working_set rawData)) w" and "r = enrich e w"
  using assms by (auto simp: performETL_eq)

section \<open>The aggregations on the concrete inputs\<close>

lemmas agg_defs =
  categoryData_def category_step_def obj_accumulate_def obj_modify_def object_values_def
  array_index_def digit_of_def digits_val_def object_prototype_keys_def sort_cmp_def

lemma scenario_months: "map month scenario_cleaned = [''Mar'', ''Jul'']"
  by (simp add: scenario_cleaned_eq enrich_def getMonth_def english_short_def env_utc_def
        scenario_raw_def sample_row_def transaction.defs cleaned.defs)

lemma scenario_categories:
  "categoryData scenario_cleaned =
     [\<lparr>cr_category = ''Books'', cr_revenue = Fin 200, cr_profit = Fin 50,
       cr_transactions = 1\<rparr>,
      \<lparr>cr_category = ''Toys'', cr_revenue = Fin 60, cr_profit = Fin 20,
       cr_transactions = 1\<rparr>]"
  by (simp add: scenario_cleaned_eq agg_defs enrich_fields scenario_raw_def sample_row_def
        arith_defs fl_simps)

lemma large_below: "fl (2 - 10 ^ 16) = Fin (2 - 10 ^ 16)"
  using fl_dyadic [of "- 4999999999999999" 1] by simp

lemma large_above: "fl (10 ^ 16 + 2) = Fin (10 ^ 16 + 2)"
  using fl_dyadic [of 5000000000000001 1] by simp

lemma large_categories:
  "categoryData large_cleaned =
     [\<lparr>cr_category = ''Books'', cr_revenue = Fin (10 ^ 16), cr_profit = Fin 0,
       cr_transactions = 1\<rparr>,
      \<lparr>cr_category = ''Toys'', cr_revenue = Fin 2, cr_profit = Fin 0,
       cr_transactions = 2\<rparr>]"
  using large_fl large_below
  by (simp add: large_cleaned_eq agg_defs enrich_fields large_raw_def sample_row_def
        arith_defs fl_simps)

lemma large_total: "revenue_total large_cleaned = Fin (10 ^ 16)"
  using large_fl large_add
  by (simp add: large_cleaned_eq revenue_total_def enrich_fields large_raw_def sample_row_def
        arith_defs fl_simps)

lemma large_rendered: "toFixed 0 (Fin (10 ^ 16)) = Str ''10000000000000000''"
  by (simp add: render_simps)

section \<open>Sums of whole numbers\<close>

lemma fl_whole:
  assumes "\<bar>k\<bar> < 2 ^ 53"
  shows "fl (of_int k) = Fin (of_int k)"
proof (cases "k = 0")
  case True
  then show ?thesis by (simp add: fl_def)
next
  case False
  then show ?thesis using assms by (rule fl_int)
qed

lemma jadd_whole:
  assumes "is_finite y" and "mag y = of_int b" and "\<bar>a + b\<bar> < 2 ^ 53"
  shows "jadd (Fin (of_int a)) y = Fin (of_int (a + b))"
proof -
  have "jadd (Fin (of_int a)) y = fl (of_int a + mag y)"
    using assms(1) by (cases y) (simp_all add: jadd_def)
  also have "of_int a + mag y = of_int (a + b)"
    using assms(2) by simp
  also have "fl (of_int (a + b)) = Fin (of_int (a + b))"
    using assms(3) by (rule fl_whole)
  finally show ?thesis .
qed

lemma foldl_jadd_whole:
  assumes "\<forall>y \<in> set ys. is_finite y \<and> mag y \<in> \<int>"
      and "\<bar>of_int a\<bar> + sum_list (map (\<lambda>y. \<bar>mag y\<bar>) ys) < (2::real) ^ 53"
  shows "foldl jadd (Fin (of_int a)) ys = Fin (of_int a + sum_list (map mag ys))"
  using assms
proof (induction ys arbitrary: a)
  case Nil
  show ?case by simp
next
  case (Cons y ys)
  from Cons.prems(1) have fy: "is_finite y" and "mag y \<in> \<int>" by simp_all
  then obtain b where wy: "mag y = of_int b" by (auto elim: Ints_cases)
  have nn: "0 \<le> sum_list (map (\<lambda>y. \<bar>mag y\<bar>) ys)"
    by (rule sum_list_nonneg) auto
  have "\<bar>real_of_int (a + b)\<bar> \<le> \<bar>of_int a\<bar> + \<bar>mag y\<bar>"
    using wy by simp
  with Cons.prems(2) nn have bd: "\<bar>real_of_int (a + b)\<bar> < 2 ^ 53" by simp
  then have "real_of_int \<bar>a + b\<bar> < real_of_int (2 ^ 53)" by simp
  then have bi: "\<bar>a + b\<bar> < 2 ^ 53" by (simp only: of_int_less_iff)
  have st: "jadd (Fin (of_int a)) y = Fin (of_int (a + b))"
    using fy wy bi by (rule jadd_whole)
  have "\<bar>real_of_int (a + b)\<bar> + sum_list (map (\<lambda>y. \<bar>mag y\<bar>) ys) < 2 ^ 53"
    using Cons.prems(2) wy by simp
  with Cons.prems(1) have
    "foldl jadd (Fin (of_int (a + b))) ys = Fin (of_int (a + b) + sum_list (map mag ys))"
    by (intro Cons.IH) simp_all
  then show ?case using wy by (simp add: st)
qed

lemma jsum_whole:
  assumes "\<forall>y \<in> set ys. is_finite y \<and> mag y \<in> \<int>"
      and "sum_list (map (\<lambda>y. \<bar>mag y\<bar>) ys) < 2 ^ 53"
  shows "jsum ys = Fin (sum_list (map mag ys))"
  using foldl_jadd_whole [of ys 0] assms by (simp add: jsum_def)

lemma running_sum_jsum: "running_sum f rows = jsum (map (\<lambda>r. num (f r)) rows)"
  by (simp add: running_sum_def jsum_def foldl_map)

lemma mag_num: "mag (num x) = fval x"
  by (cases x) simp_all

lemma running_sum_whole:
  assumes "\<forall>r \<in> set rows. fval (f r) \<in> \<int>"
      and "sum_list (map (\<lambda>r. \<bar>fval (f r)\<bar>) rows) < 2 ^ 53"
  shows "running_sum f rows = Fin (sum_list (map (\<lambda>r. fval (f r)) rows))"
  unfolding running_sum_jsum
  using jsum_whole [of "map (\<lambda>r. num (f r)) rows"] assms
  by (simp add: comp_def mag_num is_finite_num)

lemma sum_list_filter_le:
  assumes "\<forall>x \<in> set xs. 0 \<le> h x"
  shows "sum_list (map h (filter P xs)) \<le> (sum_list (map h xs) :: real)"
  using assms by (induction xs) (auto intro: add_increasing)

lemma sum_by_key:
  fixes v :: "'a \<Rightarrow> real"
  assumes "finite C" and "key ` set xs \<subseteq> C"
  shows "(\<Sum>c \<in> C. sum_list (map v (filter (\<lambda>x. key x = c) xs))) = sum_list (map v xs)"
  using assms(2)
proof (induction xs)
  case Nil
  show ?case by simp
next
  case (Cons x xs)
  then have kx: "key x \<in> C" and sub: "key ` set xs \<subseteq> C" by auto
  have "(\<Sum>c \<in> C. sum_list (map v (filter (\<lambda>y. key y = c) (x # xs))))
          = (\<Sum>c \<in> C. (if c = key x then v x else 0)
                        + sum_list (map v (filter (\<lambda>y. key y = c) xs)))"
    by (intro sum.cong refl) auto
  also have "\<dots> = (\<Sum>c \<in> C. if c = key x then v x else 0)
                    + (\<Sum>c \<in> C. sum_list (map v (filter (\<lambda>y. key y = c) xs)))"
    by (rule sum.distrib)
  also have "(\<Sum>c \<in> C. if c = key x then v x else 0) = v x"
    using assms(1) kx by simp
  finally show ?case using Cons.IH [OF sub] by simp
qed

lemma sum_list_Ints: "\<forall>x \<in> set xs. h x \<in> \<int> \<Longrightarrow> sum_list (map h xs) \<in> (\<int> :: real set)"
  by (induction xs) simp_all

lemma category_sums_whole:
  assumes w: "\<forall>r \<in> set rows. fval (revenue r) \<in> \<int>"
      and bd: "sum_list (map (\<lambda>r. \<bar>fval (revenue r)\<bar>) rows) < 2 ^ 53"
  shows "cr_revenue (category_sums c rows)
           = Fin (sum_list (map (\<lambda>r. fval (revenue r)) (filter (\<lambda>r. category r = c) rows)))"
proof -
  let ?xs = "filter (\<lambda>r. category r = c) rows"
  have "sum_list (map (\<lambda>r. \<bar>fval (revenue r)\<bar>) ?xs)
          \<le> sum_list (map (\<lambda>r. \<bar>fval (revenue r)\<bar>) rows)"
    by (rule sum_list_filter_le) simp
  with bd have "sum_list (map (\<lambda>r. \<bar>fval (revenue r)\<bar>) ?xs) < 2 ^ 53" by simp
  moreover from w have "\<forall>r \<in> set ?xs. fval (revenue r) \<in> \<int>" by simp
  ultimately have "running_sum revenue ?xs = Fin (sum_list (map (\<lambda>r. fval (revenue r)) ?xs))"
    by (intro running_sum_whole)
  then show ?thesis by (simp add: category_sums_def)
qed

lemma categoryData_whole:
  assumes ni: "\<forall>r \<in> set rows. category r \<notin> set object_prototype_keys"
      and w: "\<forall>r \<in> set rows. fval (revenue r) \<in> \<int>"
      and bd: "sum_list (map (\<lambda>r. \<bar>fval (revenue r)\<bar>) rows) < 2 ^ 53"
  shows "jsum (map cr_revenue (categoryData rows)) = running_sum revenue rows"
proof -
  let ?v = "\<lambda>r. fval (revenue r)"
  let ?C = "category ` set rows"
  let ?G = "\<lambda>c. category_sums c rows"
  let ?cd = "categoryData rows"
  let ?part = "\<lambda>c. filter (\<lambda>r. category r = c) rows"
  have fin: "finite ?C" by simp
  from ni have "?C - set object_prototype_keys = ?C" by auto
  then have set_cd: "set ?cd = ?G ` ?C" by (simp add: set_categoryData)
  have dist: "distinct ?cd"
    using category_keys_distinct [of rows] by (simp add: distinct_map)
  have inj: "inj_on ?G ?C"
  proof (rule inj_onI)
    fix c d assume "?G c = ?G d"
    then have "cr_category (?G c) = cr_category (?G d)" by simp
    then show "c = d" by (simp add: category_sums_def)
  qed
  have rev: "cr_revenue (?G c) = Fin (sum_list (map ?v (?part c)))" for c
    using w bd by (rule category_sums_whole)
  have over: "sum_list (map h ?cd) = (\<Sum>c \<in> ?C. h (?G c))" for h :: "category_row \<Rightarrow> real"
  proof -
    have "sum_list (map h ?cd) = sum h (set ?cd)"
      using dist by (rule sum_list_distinct_conv_sum_set)
    also have "\<dots> = sum (h \<circ> ?G) ?C"
      unfolding set_cd using inj by (rule sum.reindex)
    finally show ?thesis by simp
  qed
  have fw: "\<forall>y \<in> set (map cr_revenue ?cd). is_finite y \<and> mag y \<in> \<int>"
  proof
    fix y assume "y \<in> set (map cr_revenue ?cd)"
    then obtain c where "y = cr_revenue (?G c)" unfolding set_map set_cd by blast
    then have y: "y = Fin (sum_list (map ?v (?part c)))" by (simp only: rev)
    have "sum_list (map ?v (?part c)) \<in> \<int>"
      using w by (intro sum_list_Ints) simp
    with y show "is_finite y \<and> mag y \<in> \<int>" by simp
  qed
  have "sum_list (map (\<lambda>y. \<bar>mag y\<bar>) (map cr_revenue ?cd))
          = sum_list (map (\<lambda>g. \<bar>mag (cr_revenue g)\<bar>) ?cd)"
    by (simp add: comp_def)
  also have "\<dots> = (\<Sum>c \<in> ?C. \<bar>mag (cr_revenue (?G c))\<bar>)" by (rule over)
  also have "\<dots> = (\<Sum>c \<in> ?C. \<bar>sum_list (map ?v (?part c))\<bar>)" by (simp only: rev mag.simps)
  also have "\<dots> \<le> (\<Sum>c \<in> ?C. sum_list (map (\<lambda>r. \<bar>?v r\<bar>) (?part c)))"
  proof (rule sum_mono)
    fix c
    show "\<bar>sum_list (map ?v (?part c))\<bar> \<le> sum_list (map (\<lambda>r. \<bar>?v r\<bar>) (?part c))"
      using sum_list_abs [of "map ?v (?part c)"] by (simp add: comp_def)
  qed
  also have "\<dots> = sum_list (map (\<lambda>r. \<bar>?v r\<bar>) rows)"
    using fin by (rule sum_by_key) simp
  finally have bound: "sum_list (map (\<lambda>y. \<bar>mag y\<bar>) (map cr_revenue ?cd)) < 2 ^ 53"
    using bd by simp
  have "jsum (map cr_revenue ?cd) = Fin (sum_list (map mag (map cr_revenue ?cd)))"
    using fw bound by (rule jsum_whole)
  also have "sum_list (map mag (map cr_revenue ?cd))
               = sum_list (map (\<lambda>g. mag (cr_revenue g)) ?cd)"
    by (simp add: comp_def)
  also have "\<dots> = (\<Sum>c \<in> ?C. mag (cr_revenue (?G c)))" by (rule over)
  also have "\<dots> = (\<Sum>c \<in> ?C. sum_list (map ?v (?part c)))" by (simp only: rev mag.simps)
  also have "\<dots> = sum_list (map ?v rows)"
    using fin by (rule sum_by_key) simp
  also have "Fin (sum_list (map ?v rows)) = running_sum revenue rows"
    using w bd by (rule running_sum_whole [symmetric])
  finally show ?thesis .
qed

lemma round_half_away_whole:
  assumes "x \<in> \<int>"
  shows "round_half_away 0 x = x"
proof -
  from assms obtain k where k: "x = of_int k" by (auto elim: Ints_cases)
  have "\<lfloor>real_of_int \<bar>k\<bar> + 1 / 2\<rfloor> = \<bar>k\<bar>" by (rule floor_unique) simp_all
  then have "\<lfloor>\<bar>real_of_int k\<bar> + 1 / 2\<rfloor> = \<bar>k\<bar>" by simp
  then show ?thesis
    unfolding k round_half_away_def by (simp add: sgn_real_def)
qed

lemma whole_total_rendered:
  assumes w: "\<forall>r \<in> set rows. fval (revenue r) \<in> \<int>"
      and bd: "sum_list (map (\<lambda>r. \<bar>fval (revenue r)\<bar>) rows) < 2 ^ 53"
  shows "numstr_value (toFixed 0 (running_sum revenue rows))
           = Some (sum_list (map (\<lambda>r. fval (revenue r)) rows))"
proof -
  let ?s = "sum_list (map (\<lambda>r. fval (revenue r)) rows)"
  have rs: "running_sum revenue rows = Fin ?s"
    using w bd by (rule running_sum_whole)
  have "\<bar>?s\<bar> \<le> sum_list (map (\<lambda>r. \<bar>fval (revenue r)\<bar>) rows)"
    using sum_list_abs [of "map (\<lambda>r. fval (revenue r)) rows"] by (simp add: comp_def)
  with bd have "\<bar>?s\<bar> < 2 ^ 53" by simp
  also have "(2::real) ^ 53 < 10 ^ 21" by simp
  finally have sm: "\<bar>?s\<bar> < 10 ^ 21" .
  have "?s \<in> \<int>" using w by (intro sum_list_Ints) simp
  then have "round_half_away 0 ?s = ?s" by (rule round_half_away_whole)
  with toFixed_value [OF sm, of 0] show ?thesis unfolding rs by simp
qed

section \<open>Properties of the cleaning pipeline\<close>

text \<open>
  Claim C7. The deduplication stage keeps, in input order, exactly the records whose id
  no earlier record carries, each with the field values it arrived with, and counts one
  removed duplicate for every other record; the kept ids are pairwise distinct and are
  all the ids of the input. The counter of a whole run is the number of records dropped
  here.
\<close>

theorem dedup_keeps_first:
  "fst (dedup_stage rows lg) = first_occurrences rows \<and>
   duplicatesRemoved (snd (dedup_stage rows lg))
     = duplicatesRemoved lg + (length rows - length (first_occurrences rows)) \<and>
   distinct (map transaction_id (first_occurrences rows)) \<and>
   set (map transaction_id (first_occurrences rows)) = set (map transaction_id rows) \<and>
   duplicatesRemoved (etlLog (performETL e rows)) = length rows - length (first_occurrences rows)"
  using first_occurrences_ids [of rows]
  by (simp add: dedup_stage_eq first_occurrences_distinct performETL_eq
        length_later_occurrences)

theorem dedup_keeps_first_witness:
  "fst (dedup_stage scenario_raw (initial_log scenario_raw))
     = [scenario_raw ! 0, scenario_raw ! 2, scenario_raw ! 3] \<and>
   duplicatesRemoved (snd (dedup_stage scenario_raw (initial_log scenario_raw))) = 1"
  using dedup_keeps_first [of scenario_raw "initial_log scenario_raw" env_utc] scenario_first
  by (simp add: initial_log_def scenario_raw_def)

text \<open>
  Claim C6. The normalisation stage keeps the number and order of the records. A record
  with a negative quantity or a negative revenue gets both replaced by their absolute
  values and nothing else changed, cost and profit in particular; any other record is
  passed on as it is (a revenue of negative zero is not negative). The counter
  \<open>negativeValuesFixed\<close> grows by the number of records that were changed, and no
  other counter moves.
\<close>

theorem negatives_normalised:
  "length (fst (negative_stage rows lg)) = length rows \<and>
   (\<forall>i < length rows.
      fst (negative_stage rows lg) ! i =
        (if quantity (rows ! i) < 0 \<or> jlt (num (revenue (rows ! i))) (Fin 0)
         then (rows ! i)\<lparr>quantity := \<bar>quantity (rows ! i)\<bar>,
                          revenue := fabs (revenue (rows ! i))\<rparr>
         else rows ! i) \<and>
      cost (fst (negative_stage rows lg) ! i) = cost (rows ! i) \<and>
      profit (fst (negative_stage rows lg) ! i) = profit (rows ! i)) \<and>
   snd (negative_stage rows lg) =
     lg\<lparr>negativeValuesFixed :=
          negativeValuesFixed lg
          + length (filter (\<lambda>r. quantity r < 0 \<or> jlt (num (revenue r)) (Fin 0)) rows)\<rparr>"
  by (simp add: negative_stage_eq is_negative_def [abs_def])

theorem negatives_normalised_witness:
  "fst (negative_stage [negative_row] (initial_log [negative_row])) ! 0
     = negative_row\<lparr>quantity := 3, revenue := F 60\<rparr> \<and>
   cost (fst (negative_stage [negative_row] (initial_log [negative_row])) ! 0) = F 40 \<and>
   profit (fst (negative_stage [negative_row] (initial_log [negative_row])) ! 0) = F 20 \<and>
   negativeValuesFixed (snd (negative_stage [negative_row] (initial_log [negative_row]))) = 1"
  using negatives_normalised [of "[negative_row]" "initial_log [negative_row]"]
  by (simp add: negative_row_def sample_row_def initial_log_def jlt_num_zero)

text \<open>
  Claim C5, as the specification states it, fails: the mean and its fivefold are computed
  in double arithmetic, each step rounded, so the threshold is not five times the
  arithmetic mean. Of five records of revenue 2 and one of revenue \<open>50 + 2^-47\<close>, the
  last exceeds five times the mean, which is \<open>50 + 5/6 * 2^-47\<close>; the code computes the
  threshold \<open>50 + 2^-47\<close>, drops nothing and counts no outlier.
\<close>

theorem outliers_threshold_counterexample:
  "is_double (F (50 + 1 / 2 ^ 47)) \<and>
   revenue (last near_double_raw) = F (50 + 1 / 2 ^ 47) \<and>
   working_set near_double_raw = near_double_raw \<and>
   exceeds (working_set near_double_raw) (last (working_set near_double_raw)) \<and>
   length (cleanedData (performETL env_utc near_double_raw)) = 6 \<and>
   outliersRemoved (etlLog (performETL env_utc near_double_raw)) = 0"
proof -
  have x: "exceeds near_double_raw (last near_double_raw)"
    by (simp add: exceeds_def mean_revenue_def eval_defs)
  have k: "filter (is_outlier (avgRevenue near_double_raw)) near_double_raw = []"
    unfolding is_outlier_def near_double_threshold_eq
    by (simp add: eval_defs arith_defs)
  have n: "length near_double_raw = 6" by (simp add: near_double_raw_def)
  have c: "length (filter (\<lambda>r. \<not> is_outlier (avgRevenue near_double_raw) r) near_double_raw)
             = 6"
    using sum_length_filter_compl [of "is_outlier (avgRevenue near_double_raw)" near_double_raw]
    by (simp add: k n)
  have l: "revenue (last near_double_raw) = F (50 + 1 / 2 ^ 47)"
    by (simp add: eval_defs)
  from x k c l near_double_value show ?thesis
    by (simp add: performETL_eq near_double_working_set)
qed

text \<open>
  Claim C5, amended. The outlier stage works on the set left by the first three stages.
  Its threshold is computed in double arithmetic: the revenues of that set added from 0
  in order, the sum divided by the number of records, the quotient multiplied by 5, each
  result rounded to a double. The stage keeps the records whose revenue is not greater
  than that threshold, drops the others, and counts one removed outlier per dropped
  record. On an empty set it returns the empty set and leaves the counters alone.
\<close>

theorem outliers_dropped:
  "cleanedData (performETL e rawData) =
     map (enrich e)
       (filter (\<lambda>r. \<not> jgt (num (revenue r))
                         (jmul (jdiv (running_sum revenue (working_set rawData))
                                     (Fin (real (length (working_set rawData)))))
                               (Fin 5)))
          (working_set rawData)) \<and>
   outliersRemoved (etlLog (performETL e rawData)) =
     length (filter (\<lambda>r. jgt (num (revenue r))
                            (jmul (jdiv (running_sum revenue (working_set rawData))
                                        (Fin (real (length (working_set rawData)))))
                                  (Fin 5)))
               (working_set rawData)) \<and>
   (working_set rawData = [] \<longrightarrow>
      cleanedData (performETL e rawData) = [] \<and>
      outliersRemoved (etlLog (performETL e rawData)) = 0) \<and>
   outlier_stage [] lg = ([], lg)"
  by (simp add: performETL_eq is_outlier_def [abs_def] outlier_stage_eq
        avgRevenue_running [symmetric])

theorem outliers_dropped_witness:
  "working_set [] = [] \<and>
   cleanedData (performETL env_utc []) = [] \<and>
   outliersRemoved (etlLog (performETL env_utc [])) = 0 \<and>
   map revenue (cleanedData (performETL env_utc outlier_raw))
     = [F 1, F 1, F 1, F 1, F 1, F 1] \<and>
   outliersRemoved (etlLog (performETL env_utc outlier_raw)) = 1"
proof -
  have e: "working_set [] = []"
    by (simp add: working_set_eq first_occurrences_def)
  have a: "cleanedData (performETL env_utc []) = [] \<and>
           outliersRemoved (etlLog (performETL env_utc [])) = 0"
    using outliers_dropped [of env_utc "[]"] e by blast
  have t: "jmul (jdiv (running_sum revenue outlier_raw) (Fin (real (length outlier_raw))))
             (Fin 5) = Fin 40"
    unfolding avgRevenue_running [symmetric] outlier_avg
    by (simp add: arith_defs fl_simps)
  have b: "map revenue (cleanedData (performETL env_utc outlier_raw))
             = [F 1, F 1, F 1, F 1, F 1, F 1] \<and>
           outliersRemoved (etlLog (performETL env_utc outlier_raw)) = 1"
    using outliers_dropped [of env_utc outlier_raw]
    unfolding outlier_working_set t
    by (simp add: eval_defs arith_defs enrich_fields)
  from e a b show ?thesis by blast
qed

text \<open>
  Claim C4, as the specification states it, fails in its last part. Of five records of
  revenue 1 and one of revenue \<open>25 + 2^-48\<close>, all six are in the cleaned output, and the
  last has a revenue above five times the mean revenue of the working set, which is
  \<open>25 + 5/6 * 2^-48\<close>: the threshold the code computes, in double arithmetic, is
  \<open>25 + 2^-48\<close>.
\<close>

theorem cleaned_bound_counterexample:
  "is_double (F (25 + 1 / 2 ^ 48)) \<and>
   working_set near_raw = near_raw \<and>
   map revenue (cleanedData (performETL env_utc near_raw))
     = [F 1, F 1, F 1, F 1, F 1, F (25 + 1 / 2 ^ 48)] \<and>
   5 * mean_revenue (working_set near_raw) = 25 + 5 / (6 * 2 ^ 48) \<and>
   exceeds (working_set near_raw) (last (cleanedData (performETL env_utc near_raw)))"
proof -
  have k: "filter (\<lambda>r. \<not> is_outlier (avgRevenue near_raw) r) near_raw = near_raw"
    unfolding is_outlier_def near_threshold_eq
    by (simp add: eval_defs arith_defs)
  have c: "cleanedData (performETL env_utc near_raw) = map (enrich env_utc) near_raw"
    by (simp add: performETL_eq near_working_set k)
  have m: "5 * mean_revenue near_raw = 25 + 5 / (6 * 2 ^ 48)"
    by (simp add: mean_revenue_def eval_defs)
  have l: "revenue (last (map (enrich env_utc) near_raw)) = F (25 + 1 / 2 ^ 48)"
    by (simp add: eval_defs enrich_fields)
  have x: "exceeds near_raw (last (map (enrich env_utc) near_raw))"
    unfolding exceeds_def m l by simp
  have r: "map revenue (map (enrich env_utc) near_raw)
             = [F 1, F 1, F 1, F 1, F 1, F (25 + 1 / 2 ^ 48)]"
    by (simp add: eval_defs enrich_fields)
  from c m x r near_value show ?thesis by (simp add: near_working_set)
qed

text \<open>
  Claim C4, amended. In the cleaned output of every run the ids are pairwise distinct,
  and every record has a non-empty category and customer segment, a non-negative quantity
  and revenue, and a revenue not greater than the threshold of the outlier stage: the
  revenues of the working set added from 0 in order, divided by their number and
  multiplied by 5, each result rounded to a double. That threshold is a number, not
  \<open>NaN\<close>.
\<close>

theorem cleaned_invariants:
  "distinct (map transaction_id (cleanedData (performETL e rawData))) \<and>
   (\<forall>r \<in> set (cleanedData (performETL e rawData)).
      category r \<noteq> [] \<and> customer_segment r \<noteq> [] \<and> 0 \<le> quantity r \<and>
      0 \<le> fval (revenue r) \<and>
      jle (num (revenue r))
          (jmul (jdiv (running_sum revenue (working_set rawData))
                      (Fin (real (length (working_set rawData)))))
                (Fin 5)))"
proof -
  let ?ws = "working_set rawData"
  have "map transaction_id (cleanedData (performETL e rawData))
          = map transaction_id (filter (\<lambda>r. \<not> is_outlier (avgRevenue ?ws) r) ?ws)"
    by (simp add: performETL_eq enrich_fields comp_def)
  then have d: "distinct (map transaction_id (cleanedData (performETL e rawData)))"
    by (simp add: distinct_map_filter working_set_distinct)
  have "category r \<noteq> [] \<and> customer_segment r \<noteq> [] \<and> 0 \<le> quantity r \<and>
        0 \<le> fval (revenue r) \<and>
        jle (num (revenue r))
            (jmul (jdiv (running_sum revenue ?ws) (Fin (real (length ?ws)))) (Fin 5))"
    if "r \<in> set (cleanedData (performETL e rawData))" for r
  proof -
    from that obtain w where w: "w \<in> set ?ws" "\<not> is_outlier (avgRevenue ?ws) w"
      and r: "r = enrich e w" by (rule cleaned_member)
    from working_set_props [OF w(1)] have
      p: "category w \<noteq> [] \<and> customer_segment w \<noteq> [] \<and> 0 \<le> quantity w \<and>
          0 \<le> fval (revenue w)"
      by (simp add: jlt_num_zero)
    from kept_within_threshold [OF w] have
      "jle (num (revenue w))
           (jmul (jdiv (running_sum revenue ?ws) (Fin (real (length ?ws)))) (Fin 5))"
      by (simp only: avgRevenue_running)
    with p show ?thesis by (simp add: r enrich_fields)
  qed
  with d show ?thesis by blast
qed

theorem cleaned_invariants_witness:
  "hd scenario_cleaned \<in> set scenario_cleaned \<and>
   distinct (map transaction_id scenario_cleaned) \<and>
   category (hd scenario_cleaned) \<noteq> [] \<and>
   customer_segment (hd scenario_cleaned) \<noteq> [] \<and>
   0 \<le> quantity (hd scenario_cleaned) \<and>
   0 \<le> fval (revenue (hd scenario_cleaned)) \<and>
   jle (num (revenue (hd scenario_cleaned))) (Fin 650)"
proof -
  have mem: "hd scenario_cleaned \<in> set scenario_cleaned"
    by (simp add: scenario_cleaned_eq)
  have t: "jmul (jdiv (running_sum revenue (working_set scenario_raw))
                      (Fin (real (length (working_set scenario_raw)))))
                (Fin 5) = Fin 650"
    unfolding avgRevenue_running [symmetric] scenario_avg
    by (simp add: arith_defs fl_simps)
  show ?thesis
    using mem cleaned_invariants [of env_utc scenario_raw]
    unfolding scenario_cleaned_def t by blast
qed

text \<open>
  Claim C10. The counters of every run add up: the number of raw records is the number
  of removed duplicates, plus the records dropped for a missing value, plus the removed
  outliers, plus the records left after cleaning.
\<close>

theorem counters_balance:
  "totalRecords (etlLog (performETL e rawData)) =
     duplicatesRemoved (etlLog (performETL e rawData))
     + missingValuesHandled (etlLog (performETL e rawData))
     + outliersRemoved (etlLog (performETL e rawData))
     + recordsAfterCleaning (etlLog (performETL e rawData))"
proof -
  let ?f = "first_occurrences rawData"
  let ?ws = "working_set rawData"
  have a: "length rawData = length ?f + length (later_occurrences rawData)"
    by (simp add: length_first_later)
  have b: "length ?f = length (filter is_missing ?f) + length (filter (\<lambda>r. \<not> is_missing r) ?f)"
    by (simp add: sum_length_filter_compl)
  have c: "length ?ws = length (filter (\<lambda>r. \<not> is_missing r) ?f)"
    by (simp add: working_set_eq)
  have d: "length ?ws = length (filter (is_outlier (avgRevenue ?ws)) ?ws)
                        + length (filter (\<lambda>r. \<not> is_outlier (avgRevenue ?ws) r) ?ws)"
    by (simp add: sum_length_filter_compl)
  show ?thesis using a b c d by (simp add: performETL_eq)
qed

theorem counters_balance_witness:
  "totalRecords (etlLog (performETL env_utc scenario_raw)) = 4 \<and>
   duplicatesRemoved (etlLog (performETL env_utc scenario_raw))
   + missingValuesHandled (etlLog (performETL env_utc scenario_raw))
   + outliersRemoved (etlLog (performETL env_utc scenario_raw))
   + recordsAfterCleaning (etlLog (performETL env_utc scenario_raw)) = 4"
proof -
  have t: "totalRecords (etlLog (performETL env_utc scenario_raw)) = 4"
    by (simp add: performETL_eq scenario_raw_def)
  show ?thesis
    using t counters_balance [of env_utc scenario_raw] by simp
qed

text \<open>
  Claim C2, as the specification states it, fails twice. For a record with revenue 0 the
  margin is not absent: the division yields \<open>NaN\<close>, and \<open>toFixed\<close> renders it. And
  the margin is not the percentage rounded to two decimals: for a profit of 23 on a
  revenue of 160 the percentage is 14.375, which rounds to 14.38, while the code, rounding
  the quotient and the product to doubles first, arrives at \<open>14.374999999999998\<close> and
  renders \<open>14.37\<close>.
\<close>

theorem margin_counterexample:
  "\<not> list_all margin_as_specified (cleanedData (performETL env_utc zero_revenue_raw)) \<and>
   map profit_margin (cleanedData (performETL env_utc zero_revenue_raw)) = [Str ''NaN''] \<and>
   \<not> list_all margin_as_specified (cleanedData (performETL env_utc tie_raw)) \<and>
   map profit_margin (cleanedData (performETL env_utc tie_raw)) = [Str ''14.37''] \<and>
   profit_margin_spec 23 160 = Some (Str ''14.38'')"
proof -
  have z: "cleanedData (performETL env_utc zero_revenue_raw)
             = map (enrich env_utc) zero_revenue_raw"
    by (simp add: performETL_eq working_set_eq eval_defs is_outlier_def avgRevenue_def
          arith_defs fl_simps)
  have zm: "map profit_margin (map (enrich env_utc) zero_revenue_raw) = [Str ''NaN'']"
    by (simp add: profit_margin_enrich percentage_zero_revenue eval_defs)
  have zs: "\<not> list_all margin_as_specified (map (enrich env_utc) zero_revenue_raw)"
    by (simp add: margin_as_specified_def profit_margin_spec_def enrich_fields eval_defs)
  have ta: "avgRevenue tie_raw = Fin 160"
    by (simp add: avgRevenue_def eval_defs arith_defs fl_simps)
  have t: "cleanedData (performETL env_utc tie_raw) = map (enrich env_utc) tie_raw"
    unfolding performETL_eq
    by (simp add: working_set_eq eval_defs is_outlier_def avgRevenue_def arith_defs fl_simps)
  have tm: "map profit_margin (map (enrich env_utc) tie_raw) = [Str ''14.37'']"
    using tie_margin by (simp add: profit_margin_enrich eval_defs)
  have ts: "\<not> list_all margin_as_specified (map (enrich env_utc) tie_raw)"
    using tie_margin tie_spec
    by (simp add: margin_as_specified_def profit_margin_enrich enrich_fields eval_defs)
  from z zm zs t tm ts tie_spec show ?thesis by simp
qed

text \<open>
  Claim C2, amended. Every record of the cleaned output carries as its margin the string
  \<open>toFixed(2)\<close> gives for the percentage computed in double arithmetic, the quotient
  \<open>profit / revenue\<close> rounded to a double and its hundredfold rounded again. For a
  revenue of zero that string is \<open>NaN\<close> when the profit is zero too, and otherwise
  \<open>Infinity\<close> or \<open>-Infinity\<close>, as the signs of profit and revenue agree or differ.
  Whenever the computed percentage is finite and below \<open>10^21\<close> in magnitude, the string
  is a decimal numeral, and the number it denotes is that percentage rounded to two
  decimals, a tie going away from zero. Revenue 200 and profit 50 give \<open>25.00\<close>.
\<close>

theorem profit_margin_rendered:
  "(\<forall>r \<in> set (cleanedData (performETL e rawData)).
      profit_margin r = toFixed 2 (percentage (profit r) (revenue r)) \<and>
      (fval (revenue r) = 0 \<longrightarrow>
         profit_margin r =
           (if fval (profit r) = 0 then Str ''NaN''
            else if (fval (profit r) < 0) = (revenue r = NZ) then Str ''Infinity''
            else Str ''-Infinity'')) \<and>
      (is_finite (percentage (profit r) (revenue r)) \<and>
       \<bar>mag (percentage (profit r) (revenue r))\<bar> < 10 ^ 21 \<longrightarrow>
         numstr_value (profit_margin r)
           = Some (round_half_away 2 (mag (percentage (profit r) (revenue r)))))) \<and>
   toFixed 2 (percentage (F 50) (F 200)) = Str ''25.00''"
proof -
  have m: "profit_margin r = toFixed 2 (percentage (profit r) (revenue r))"
    if "r \<in> set (cleanedData (performETL e rawData))" for r
    using that by (auto simp: performETL_eq profit_margin_enrich enrich_fields)
  have "toFixed 2 (percentage (F 50) (F 200)) = Str ''25.00''"
    using margin_25 by (simp add: percentage_def)
  with m show ?thesis
    by (simp add: percentage_zero_revenue toFixed_finite_value)
qed

theorem profit_margin_rendered_witness:
  "hd scenario_cleaned \<in> set scenario_cleaned \<and>
   revenue (hd scenario_cleaned) = F 200 \<and>
   profit (hd scenario_cleaned) = F 50 \<and>
   profit_margin (hd scenario_cleaned) = Str ''25.00'' \<and>
   numstr_value (profit_margin (hd scenario_cleaned)) = Some 25"
proof -
  have mem: "hd scenario_cleaned \<in> set scenario_cleaned"
    by (simp add: scenario_cleaned_eq)
  have v: "revenue (hd scenario_cleaned) = F 200 \<and> profit (hd scenario_cleaned) = F 50"
    by (simp add: scenario_cleaned_eq enrich_fields scenario_raw_def sample_row_def)
  have p: "percentage (F 50) (F 200) = Fin 25"
    by (simp add: percentage_def arith_defs fl_simps fl_quarter)
  have r: "round_half_away 2 25 = 25"
    by (simp add: round_half_away_def)
  have pe: "percentage (profit (hd scenario_cleaned)) (revenue (hd scenario_cleaned)) = Fin 25"
    using v p by simp
  have h: "is_finite (Fin 25) \<and> \<bar>mag (Fin 25)\<bar> < 10 ^ 21" by simp
  from mem profit_margin_rendered [of env_utc scenario_raw] have
    raw: "profit_margin (hd scenario_cleaned)
       = toFixed 2 (percentage (profit (hd scenario_cleaned)) (revenue (hd scenario_cleaned))) \<and>
     (is_finite (percentage (profit (hd scenario_cleaned)) (revenue (hd scenario_cleaned))) \<and>
      \<bar>mag (percentage (profit (hd scenario_cleaned)) (revenue (hd scenario_cleaned)))\<bar>
        < 10 ^ 21 \<longrightarrow>
      numstr_value (profit_margin (hd scenario_cleaned))
        = Some (round_half_away 2
                  (mag (percentage (profit (hd scenario_cleaned))
                          (revenue (hd scenario_cleaned))))))"
    unfolding scenario_cleaned_def by blast
  from raw have a: "profit_margin (hd scenario_cleaned) = toFixed 2 (Fin 25)"
    unfolding pe by blast
  from raw h have
    "numstr_value (profit_margin (hd scenario_cleaned)) = Some (round_half_away 2 (mag (Fin 25)))"
    unfolding pe by blast
  then have b: "numstr_value (profit_margin (hd scenario_cleaned)) = Some 25"
    by (simp add: r)
  have t: "toFixed 2 (Fin 25) = Str ''25.00''"
    by (simp add: render_simps)
  from mem v a b show ?thesis unfolding t by blast
qed

text \<open>
  Claim C3 fails on the code. The enrichment reads the date, parsed as midnight UTC, in
  local time: five hours west of Greenwich the first of April is still the last day of
  March, so the record gets month \<open>Mar\<close> and quarter \<open>Q1\<close>. At UTC the same record
  gets \<open>Apr\<close> and \<open>Q2\<close>.
\<close>

theorem month_read_in_local_time:
  "map month (cleanedData (performETL env_new_york april_first_raw)) = [''Mar''] \<and>
   map quarter (cleanedData (performETL env_new_york april_first_raw)) = [''Q1''] \<and>
   map month (cleanedData (performETL env_utc april_first_raw)) = [''Apr''] \<and>
   map quarter (cleanedData (performETL env_utc april_first_raw)) = [''Q2'']"
  by (simp add: performETL_eq working_set_eq eval_defs is_outlier_def avgRevenue_def
        arith_defs fl_simps enrich_def getMonth_def english_short_def transaction.defs
        cleaned.defs render_simps)

section \<open>Properties of the KPI calculator\<close>

text \<open>
  Claim C1, as the specification states it, fails: on an empty filtered set the average
  order value and the profit margin are not zero. Both are \<open>0 / 0\<close>, rendered as
  \<open>NaN\<close>.
\<close>

theorem kpis_empty_counterexample:
  "kpis (filteredData [] ''All'' ''All'') \<noteq> zero_kpis \<and>
   avgOrderValue (kpis (filteredData [] ''All'' ''All'')) = Str ''NaN'' \<and>
   profitMargin (kpis (filteredData [] ''All'' ''All'')) = Str ''NaN''"
  by (simp add: filteredData_def kpis_def zero_kpis_def revenue_total_def profit_total_def
        arith_defs render_simps)

text \<open>
  Claim C1, amended. Whenever the filtered set is empty, the KPI calculator returns the
  total revenue and the total profit rendered as \<open>0\<close>, the transaction count 0, and
  the average order value and the profit margin rendered as \<open>NaN\<close>; nothing is raised.
\<close>

theorem kpis_empty:
  "filteredData rows selectedRegion selectedCategory = [] \<Longrightarrow>
   kpis (filteredData rows selectedRegion selectedCategory) =
     \<lparr>totalRevenue = Str ''0'', totalProfit = Str ''0'', totalTransactions = 0,
      avgOrderValue = Str ''NaN'', profitMargin = Str ''NaN''\<rparr>"
  by (simp add: kpis_def revenue_total_def profit_total_def arith_defs render_simps)

theorem kpis_empty_witness:
  "filteredData scenario_cleaned ''South'' ''All'' = [] \<and>
   kpis (filteredData scenario_cleaned ''South'' ''All'') =
     \<lparr>totalRevenue = Str ''0'', totalProfit = Str ''0'', totalTransactions = 0,
      avgOrderValue = Str ''NaN'', profitMargin = Str ''NaN''\<rparr>"
proof -
  have e: "filteredData scenario_cleaned ''South'' ''All'' = []"
    by (simp add: scenario_cleaned_eq filteredData_def enrich_fields scenario_raw_def
          sample_row_def)
  from e kpis_empty [OF e] show ?thesis by blast
qed

section \<open>Properties of the aggregations\<close>

text \<open>
  Claim C9. For every filtered set the month aggregation has twelve entries, named
  \<open>Jan\<close> to \<open>Dec\<close> in calendar order, and the entry of a month no record of
  the set falls in has revenue 0 and profit 0.
\<close>

theorem monthly_trend_all_months:
  "length (monthlyTrend rows) = 12 \<and>
   map mr_month (monthlyTrend rows) =
     [''Jan'', ''Feb'', ''Mar'', ''Apr'', ''May'', ''Jun'',
      ''Jul'', ''Aug'', ''Sep'', ''Oct'', ''Nov'', ''Dec''] \<and>
   (\<forall>i < 12. (\<forall>r \<in> set rows. month r \<noteq> monthOrder ! i) \<longrightarrow>
      monthlyTrend rows ! i =
        \<lparr>mr_month = monthOrder ! i, mr_revenue = Fin 0, mr_profit = Fin 0\<rparr>)"
proof -
  have l: "length monthOrder = 12" by (simp add: monthOrder_def)
  have a: "length (monthlyTrend rows) = 12" by (simp add: monthlyTrend_eq l)
  have b: "map mr_month (monthlyTrend rows) = monthOrder"
    by (simp add: monthlyTrend_eq comp_def month_sums_def)
  have c: "\<forall>i < 12. (\<forall>r \<in> set rows. month r \<noteq> monthOrder ! i) \<longrightarrow>
      monthlyTrend rows ! i =
        \<lparr>mr_month = monthOrder ! i, mr_revenue = Fin 0, mr_profit = Fin 0\<rparr>"
    by (simp add: monthlyTrend_eq l month_sums_none)
  from a b c show ?thesis by (simp add: monthOrder_def)
qed

theorem monthly_trend_all_months_witness:
  "map month scenario_cleaned = [''Mar'', ''Jul''] \<and>
   length (monthlyTrend scenario_cleaned) = 12 \<and>
   monthlyTrend scenario_cleaned ! 0 = \<lparr>mr_month = ''Jan'', mr_revenue = Fin 0, mr_profit = Fin 0\<rparr>"
proof -
  have m0: "monthOrder ! 0 = ''Jan''" by (simp add: monthOrder_def)
  have h: "\<forall>r \<in> set scenario_cleaned. month r \<noteq> monthOrder ! 0"
  proof
    fix r assume "r \<in> set scenario_cleaned"
    then have "month r \<in> set (map month scenario_cleaned)" by simp
    then show "month r \<noteq> monthOrder ! 0" unfolding scenario_months m0 by auto
  qed
  note t = monthly_trend_all_months [of scenario_cleaned]
  from t have l: "length (monthlyTrend scenario_cleaned) = 12" by (rule conjunct1)
  from t have "\<forall>i < 12. (\<forall>r \<in> set scenario_cleaned. month r \<noteq> monthOrder ! i) \<longrightarrow>
      monthlyTrend scenario_cleaned ! i =
        \<lparr>mr_month = monthOrder ! i, mr_revenue = Fin 0, mr_profit = Fin 0\<rparr>"
    by (rule conjunct2 [THEN conjunct2])
  then have "(0::nat) < 12 \<longrightarrow> (\<forall>r \<in> set scenario_cleaned. month r \<noteq> monthOrder ! 0) \<longrightarrow>
      monthlyTrend scenario_cleaned ! 0 =
        \<lparr>mr_month = monthOrder ! 0, mr_revenue = Fin 0, mr_profit = Fin 0\<rparr>"
    by (rule spec)
  with h have "monthlyTrend scenario_cleaned ! 0 =
        \<lparr>mr_month = monthOrder ! 0, mr_revenue = Fin 0, mr_profit = Fin 0\<rparr>"
    by simp
  with l scenario_months show ?thesis unfolding m0 by simp
qed

text \<open>
  Claim C8, as the specification states it, fails: the additions are rounded, so the sum
  depends on the order and the grouping of its terms. For a record of revenue \<open>10^16\<close>
  in one category, followed by two of revenue 1 in another, the category rows carry
  \<open>10^16\<close> and 2, which add up to \<open>10^16 + 2\<close>, while the KPI calculator, adding the
  three revenues in order, stays at \<open>10^16\<close> and renders that.
\<close>

theorem category_total_counterexample:
  "is_double (F (10 ^ 16)) \<and>
   map revenue large_cleaned = [F (10 ^ 16), F 1, F 1] \<and>
   map category large_cleaned = [''Books'', ''Toys'', ''Toys''] \<and>
   map cr_revenue (categoryData large_cleaned) = [Fin (10 ^ 16), Fin 2] \<and>
   jsum (map cr_revenue (categoryData large_cleaned)) = Fin (10 ^ 16 + 2) \<and>
   revenue_total large_cleaned = Fin (10 ^ 16) \<and>
   totalRevenue (kpis large_cleaned) = Str ''10000000000000000''"
proof -
  have a: "map cr_revenue (categoryData large_cleaned) = [Fin (10 ^ 16), Fin 2]"
    by (simp add: large_categories)
  have b: "jsum [Fin (10 ^ 16), Fin 2] = Fin (10 ^ 16 + 2)"
    using large_fl large_above by (simp add: jsum_def arith_defs)
  have c: "totalRevenue (kpis large_cleaned) = Str ''10000000000000000''"
    using large_rendered by (simp add: kpis_def Let_def large_total)
  have d: "map revenue large_cleaned = [F (10 ^ 16), F 1, F 1] \<and>
           map category large_cleaned = [''Books'', ''Toys'', ''Toys'']"
    by (simp add: large_cleaned_eq enrich_fields large_raw_def sample_row_def)
  from a b c d large_total large_value show ?thesis by simp
qed

text \<open>
  Claim C8, amended. For every filtered set the rows of the category aggregation are in
  descending order of their revenue: no row is followed by one of greater revenue. There
  is one row for each category of the set that is not a name objects inherit from
  \<open>Object.prototype\<close>, and it carries the revenues and the profits of the records of
  that category, added from 0 in the order of the set with every addition rounded to a
  double, and their number. The total revenue KPI is the string \<open>toFixed(0)\<close> gives for
  the revenues of all records added the same way; whenever that sum is finite and below
  \<open>10^21\<close> in magnitude, the string is a numeral that denotes the sum rounded to a
  whole number, a tie going away from zero. The revenues of the rows need not add up to
  that sum; they do when no addition rounds: if every revenue of the set is a whole
  number, their magnitudes add up to less than \<open>2^53\<close>, and no category is an
  inherited name, then the revenues of the rows, added in double arithmetic, give the sum
  the KPI calculator computes, which is the exact sum, and the KPI denotes it.
\<close>

theorem category_rows_sorted_and_total:
  "sorted_wrt (\<lambda>a b. \<not> jlt (cr_revenue a) (cr_revenue b)) (categoryData rows) \<and>
   distinct (map cr_category (categoryData rows)) \<and>
   set (categoryData rows)
     = (\<lambda>c. category_sums c rows) ` (category ` set rows - set object_prototype_keys) \<and>
   totalRevenue (kpis rows) = toFixed 0 (running_sum revenue rows) \<and>
   (is_finite (running_sum revenue rows) \<and> \<bar>mag (running_sum revenue rows)\<bar> < 10 ^ 21 \<longrightarrow>
      numstr_value (totalRevenue (kpis rows))
        = Some (round_half_away 0 (mag (running_sum revenue rows)))) \<and>
   ((\<forall>r \<in> set rows. category r \<notin> set object_prototype_keys \<and> fval (revenue r) \<in> \<int>) \<and>
    sum_list (map (\<lambda>r. \<bar>fval (revenue r)\<bar>) rows) < 2 ^ 53 \<longrightarrow>
      jsum (map cr_revenue (categoryData rows)) = running_sum revenue rows \<and>
      running_sum revenue rows = Fin (sum_list (map (\<lambda>r. fval (revenue r)) rows)) \<and>
      numstr_value (totalRevenue (kpis rows))
        = Some (sum_list (map (\<lambda>r. fval (revenue r)) rows)))"
proof -
  have k: "totalRevenue (kpis rows) = toFixed 0 (running_sum revenue rows)"
    by (simp add: kpis_def Let_def revenue_total_running)
  have "jsum (map cr_revenue (categoryData rows)) = running_sum revenue rows \<and>
        running_sum revenue rows = Fin (sum_list (map (\<lambda>r. fval (revenue r)) rows)) \<and>
        numstr_value (totalRevenue (kpis rows))
          = Some (sum_list (map (\<lambda>r. fval (revenue r)) rows))"
    if h: "(\<forall>r \<in> set rows. category r \<notin> set object_prototype_keys \<and> fval (revenue r) \<in> \<int>) \<and>
           sum_list (map (\<lambda>r. \<bar>fval (revenue r)\<bar>) rows) < 2 ^ 53"
  proof -
    from h have ni: "\<forall>r \<in> set rows. category r \<notin> set object_prototype_keys"
      and w: "\<forall>r \<in> set rows. fval (revenue r) \<in> \<int>"
      and bd: "sum_list (map (\<lambda>r. \<bar>fval (revenue r)\<bar>) rows) < 2 ^ 53"
      by blast+
    from ni w bd have "jsum (map cr_revenue (categoryData rows)) = running_sum revenue rows"
      by (rule categoryData_whole)
    moreover from w bd have
      "running_sum revenue rows = Fin (sum_list (map (\<lambda>r. fval (revenue r)) rows))"
      by (rule running_sum_whole)
    moreover from w bd have
      "numstr_value (totalRevenue (kpis rows))
         = Some (sum_list (map (\<lambda>r. fval (revenue r)) rows))"
      unfolding k by (rule whole_total_rendered)
    ultimately show ?thesis by blast
  qed
  then have whole:
    "(\<forall>r \<in> set rows. category r \<notin> set object_prototype_keys \<and> fval (revenue r) \<in> \<int>) \<and>
     sum_list (map (\<lambda>r. \<bar>fval (revenue r)\<bar>) rows) < 2 ^ 53 \<longrightarrow>
       jsum (map cr_revenue (categoryData rows)) = running_sum revenue rows \<and>
       running_sum revenue rows = Fin (sum_list (map (\<lambda>r. fval (revenue r)) rows)) \<and>
       numstr_value (totalRevenue (kpis rows))
         = Some (sum_list (map (\<lambda>r. fval (revenue r)) rows))"
    by blast
  have rounded:
    "is_finite (running_sum revenue rows) \<and> \<bar>mag (running_sum revenue rows)\<bar> < 10 ^ 21 \<longrightarrow>
       numstr_value (totalRevenue (kpis rows))
         = Some (round_half_away 0 (mag (running_sum revenue rows)))"
    unfolding k by (simp add: toFixed_finite_value)
  from categoryData_sorted [of rows] category_keys_distinct [of rows] set_categoryData [of rows]
    k rounded whole
  show ?thesis by blast
qed

theorem category_rows_sorted_and_total_witness:
  "map cr_revenue (categoryData scenario_cleaned) = [Fin 200, Fin 60] \<and>
   \<not> jlt (Fin 200) (Fin 60) \<and>
   running_sum revenue scenario_cleaned = Fin 260 \<and>
   totalRevenue (kpis scenario_cleaned) = Str ''260'' \<and>
   numstr_value (totalRevenue (kpis scenario_cleaned)) = Some 260 \<and>
   jsum (map cr_revenue (categoryData scenario_cleaned)) = running_sum revenue scenario_cleaned"
proof -
  have a: "map cr_revenue (categoryData scenario_cleaned) = [Fin 200, Fin 60]"
    by (simp add: scenario_categories)
  have s: "running_sum revenue scenario_cleaned = Fin 260"
    by (simp add: scenario_cleaned_eq running_sum_def enrich_fields scenario_raw_def
          sample_row_def arith_defs fl_simps)
  have h: "is_finite (Fin 260) \<and> \<bar>mag (Fin 260)\<bar> < 10 ^ 21" by simp
  have r: "round_half_away 0 260 = 260" by (simp add: round_half_away_def)
  have t: "toFixed 0 (Fin 260) = Str ''260''" by (simp add: render_simps)
  note ct = category_rows_sorted_and_total [of scenario_cleaned]
  from ct have "sorted_wrt (\<lambda>a b. \<not> jlt (cr_revenue a) (cr_revenue b))
                   (categoryData scenario_cleaned)"
    by (rule conjunct1)
  then have o: "\<not> jlt (Fin 200) (Fin 60)"
    unfolding scenario_categories by simp
  from ct have k: "totalRevenue (kpis scenario_cleaned) = Str ''260''"
    unfolding s t by blast
  from ct h have "numstr_value (totalRevenue (kpis scenario_cleaned))
                     = Some (round_half_away 0 (mag (Fin 260)))"
    unfolding s by blast
  then have v: "numstr_value (totalRevenue (kpis scenario_cleaned)) = Some 260"
    by (simp add: r)
  have w: "(\<forall>r \<in> set scenario_cleaned.
              category r \<notin> set object_prototype_keys \<and> fval (revenue r) \<in> \<int>) \<and>
           sum_list (map (\<lambda>r. \<bar>fval (revenue r)\<bar>) scenario_cleaned) < 2 ^ 53"
    by (simp add: scenario_cleaned_eq enrich_fields scenario_raw_def sample_row_def
          object_prototype_keys_def)
  from ct w have
    j: "jsum (map cr_revenue (categoryData scenario_cleaned))
          = running_sum revenue scenario_cleaned"
    by blast
  from a o s k v j show ?thesis by blast
qed

end
